theory Spec2Isabelle
  imports Complex_Main "HOL-Library.Word" "HOL-Library.Monad_Syntax"
begin

section \<open>Data model\<close>

text \<open>
  The C++ type \<open>unsigned int\<close> is a 32-bit word: addition, subtraction and
  multiplication wrap around, division and comparison are unsigned.
\<close>

type_synonym uint = "32 word"

text \<open>
  Modelled from the spec: the pixel collaborator (\<open>imgUtil/RGBAPixel.h\<close> is not among
  the sources). Three 8-bit colour channels and one continuous channel; the C++
  \<open>double\<close> of the continuous channel is idealised as a real number, so rounding of
  floating-point operations is not modelled. The properties of averages below are
  stated for the three colour channels; the continuous channel occurs in a theorem
  only where a pixel is copied or where the operations on the values at hand are
  exact in floating-point arithmetic as well.
\<close>

datatype RGBAPixel = RGBAPixel (red: "8 word") (green: "8 word") (blue: "8 word") (alpha: real)

text \<open>
  Modelled from the spec: the raster collaborator (\<open>imgUtil/PNG.h\<close> is not among the
  sources). A raster has a width, a height and a pixel for every coordinate; access
  through \<open>getPixel\<close> is valid for \<open>x < width\<close> and \<open>y < height\<close> only, and an access out
  of range is a failure (\<open>None\<close>).
\<close>

record PNG =
  imgWidth :: uint
  imgHeight :: uint
  imgData :: "uint \<times> uint \<Rightarrow> RGBAPixel"

definition getPixel :: "PNG \<Rightarrow> uint \<Rightarrow> uint \<Rightarrow> RGBAPixel option" where
  "getPixel img x y =
     (if x < imgWidth img \<and> y < imgHeight img then Some (imgData img (x, y)) else None)"

text \<open>The assignment \<open>*img.getPixel(x, y) = color\<close>.\<close>

definition setPixel :: "PNG \<Rightarrow> uint \<Rightarrow> uint \<Rightarrow> RGBAPixel \<Rightarrow> PNG option" where
  "setPixel img x y color =
     (if x < imgWidth img \<and> y < imgHeight img
      then Some (img\<lparr>imgData := (imgData img)((x, y) := color)\<rparr>) else None)"

text \<open>
  The constructor \<open>PNG img(w, h)\<close>: a raster of the given size in which every pixel
  holds the default pixel \<open>blank\<close> of the collaborator, a parameter of the model.
\<close>

definition newPNG :: "RGBAPixel \<Rightarrow> uint \<Rightarrow> uint \<Rightarrow> PNG" where
  "newPNG blank w h = \<lparr>imgWidth = w, imgHeight = h, imgData = (\<lambda>_. blank)\<rparr>"

text \<open>
  A value of type \<open>node\<close> is a \<open>Node*\<close>: either \<open>nullptr\<close> or a node that owns its four
  children. Nodes are never shared, so updating in place is returning the new tree.
\<close>

datatype node =
    Null
  | Node (upLeft: "uint \<times> uint") (lowRight: "uint \<times> uint") (avg: RGBAPixel)
         (NW: node) (NE: node) (SW: node) (SE: node)

record qtree =
  root :: node
  height :: uint
  width :: uint

section \<open>Construction\<close>

text \<open>
  One \<open>if (X != nullptr) { totalR += X->avg.r * areaX; ... }\<close> block of \<open>BuildNode\<close>.
  The accumulators \<open>totalR\<close>, \<open>totalG\<close>, \<open>totalB\<close> are \<open>int\<close>, the product with the
  \<open>unsigned int\<close> area is unsigned, so sums and products are taken modulo \<open>2 ^ 32\<close>.
\<close>

fun addChild :: "node \<Rightarrow> uint \<Rightarrow> uint \<times> uint \<times> uint \<times> real \<Rightarrow> uint \<times> uint \<times> uint \<times> real" where
  "addChild Null area tot = tot"
| "addChild (Node ul lr c nw ne sw se) area (totalR, totalG, totalB, totalA) =
     (totalR + ucast (red c) * area,
      totalG + ucast (green c) * area,
      totalB + ucast (blue c) * area,
      totalA + alpha c * real (unat area))"

text \<open>
  Lines 177 to 222 of \<open>BuildNode\<close>: the areas of the four quadrants, the weighted sums
  and the quotients. The divisions \<open>totalR / totalArea\<close> are unsigned; a zero
  \<open>totalArea\<close> is a division by zero, the failure \<open>None\<close>.
\<close>

definition nodeAvg ::
  "uint \<times> uint \<Rightarrow> uint \<times> uint \<Rightarrow> uint \<Rightarrow> uint \<Rightarrow> node \<Rightarrow> node \<Rightarrow> node \<Rightarrow> node \<Rightarrow> RGBAPixel option" where
  "nodeAvg ul lr midX midY nw ne sw se =
     (let areaNW = (midX - fst ul + 1) * (midY - snd ul + 1);
          areaNE = (fst lr - (midX + 1) + 1) * (midY - snd ul + 1);
          areaSW = (midX - fst ul + 1) * (snd lr - (midY + 1) + 1);
          areaSE = (fst lr - (midX + 1) + 1) * (snd lr - (midY + 1) + 1);
          totalArea = (fst lr - fst ul + 1) * (snd lr - snd ul + 1);
          (totalR, totalG, totalB, totalA) =
             addChild se areaSE (addChild sw areaSW (addChild ne areaNE
               (addChild nw areaNW (0, 0, 0, 0))))
      in if totalArea = 0 then None
         else Some (RGBAPixel (ucast (totalR div totalArea)) (ucast (totalG div totalArea))
                      (ucast (totalB div totalArea)) (totalA / real (unat totalArea))))"

text \<open>
  \<open>BuildNode\<close> recurses on the rectangle; on a rectangle whose corners are out of order
  it does not return, which is the value \<open>None\<close>.
\<close>

partial_function (option) BuildNode :: "PNG \<Rightarrow> uint \<times> uint \<Rightarrow> uint \<times> uint \<Rightarrow> node option" where
  "BuildNode img ul lr =
     (if ul = lr then
        do { p \<leftarrow> getPixel img (fst ul) (snd ul);
             Some (Node ul lr p Null Null Null Null) }
      else
        let midX = (fst ul + fst lr) div 2;
            midY = (snd ul + snd lr) div 2
        in do {
          nw \<leftarrow> BuildNode img ul (midX, midY);
          (ne, sw, se) \<leftarrow>
            (if fst lr = fst ul then
               do { sw \<leftarrow> BuildNode img (fst ul, midY + 1) (midX, snd lr);
                    Some (Null, sw, Null) }
             else
               do { ne \<leftarrow> BuildNode img (midX + 1, snd ul) (fst lr, midY);
                    if snd ul \<noteq> snd lr then
                      do { sw \<leftarrow> BuildNode img (fst ul, midY + 1) (midX, snd lr);
                           se \<leftarrow> BuildNode img (midX + 1, midY + 1) lr;
                           Some (ne, sw, se) }
                    else Some (ne, Null, Null) });
          c \<leftarrow> nodeAvg ul lr midX midY nw ne sw se;
          Some (Node ul lr c nw ne sw se)
        })"

declare BuildNode.simps [code]

text \<open>The constructor \<open>QTree::QTree(const PNG& imIn)\<close>.\<close>

definition QTree :: "PNG \<Rightarrow> qtree option" where
  "QTree imIn =
     (let w = imgWidth imIn; h = imgHeight imIn
      in do { nd \<leftarrow> BuildNode imIn (0, 0) (w - 1, h - 1);
              Some \<lparr>root = nd, height = h, width = w\<rparr> })"

section \<open>Rendering\<close>

text \<open>
  The inner loop of \<open>draw\<close>:
  \<open>for (unsigned int y = 0; y < scale; y++) *img.getPixel(startX + x, startY + y) = color;\<close>
\<close>

function drawColumn :: "PNG \<Rightarrow> uint \<Rightarrow> uint \<Rightarrow> uint \<Rightarrow> RGBAPixel \<Rightarrow> uint \<Rightarrow> PNG option" where
  "drawColumn img px startY scale color y =
     (if y < scale then
        do { img' \<leftarrow> setPixel img px (startY + y) color;
             drawColumn img' px startY scale color (y + 1) }
      else Some img)"
  by pat_completeness auto
termination
proof (relation "measure (\<lambda>(img, px, startY, scale, color, y). unat scale - unat y)")
  show "wf (measure (\<lambda>(img, px, startY, scale, color, y). unat scale - unat y))"
    by simp
next
  fix img img' :: PNG and px startY scale y :: uint and color :: RGBAPixel
  assume "y < scale"
  then have "unat (y + 1) = unat y + 1" and "unat y < unat scale"
    by unat_arith+
  then show "((img', px, startY, scale, color, y + 1), (img, px, startY, scale, color, y))
      \<in> measure (\<lambda>(img, px, startY, scale, color, y). unat scale - unat y)"
    by simp
qed

declare drawColumn.simps [simp del]

text \<open>The outer loop of \<open>draw\<close>, \<open>for (unsigned int x = 0; x < scale; x++)\<close>.\<close>

function drawRows :: "PNG \<Rightarrow> uint \<Rightarrow> uint \<Rightarrow> uint \<Rightarrow> RGBAPixel \<Rightarrow> uint \<Rightarrow> PNG option" where
  "drawRows img startX startY scale color x =
     (if x < scale then
        do { img' \<leftarrow> drawColumn img (startX + x) startY scale color 0;
             drawRows img' startX startY scale color (x + 1) }
      else Some img)"
  by pat_completeness auto
termination
proof (relation "measure (\<lambda>(img, startX, startY, scale, color, x). unat scale - unat x)")
  show "wf (measure (\<lambda>(img, startX, startY, scale, color, x). unat scale - unat x))"
    by simp
next
  fix img img' :: PNG and startX startY scale x :: uint and color :: RGBAPixel
  assume "x < scale"
  then have "unat (x + 1) = unat x + 1" and "unat x < unat scale"
    by unat_arith+
  then show "((img', startX, startY, scale, color, x + 1), (img, startX, startY, scale, color, x))
      \<in> measure (\<lambda>(img, startX, startY, scale, color, x). unat scale - unat x)"
    by simp
qed

declare drawRows.simps [simp del]

definition draw :: "PNG \<Rightarrow> uint \<Rightarrow> uint \<Rightarrow> uint \<Rightarrow> RGBAPixel \<Rightarrow> PNG option" where
  "draw img startX startY scale color = drawRows img startX startY scale color 0"

fun renderNode :: "node \<Rightarrow> PNG \<Rightarrow> uint \<Rightarrow> PNG option" where
  "renderNode Null img scale = Some img"
| "renderNode (Node ul lr c nw ne sw se) img scale =
     (if nw = Null \<and> ne = Null \<and> sw = Null \<and> se = Null then
        draw img (fst ul * scale) (snd ul * scale) scale c
      else
        do { img1 \<leftarrow> renderNode nw img scale;
             img2 \<leftarrow> renderNode ne img1 scale;
             img3 \<leftarrow> renderNode sw img2 scale;
             renderNode se img3 scale })"

definition Render :: "RGBAPixel \<Rightarrow> qtree \<Rightarrow> uint \<Rightarrow> PNG option" where
  "Render blank t scale =
     renderNode (root t) (newPNG blank (width t * scale) (height t * scale)) scale"

section \<open>Pruning\<close>

text \<open>
  The metric \<open>RGBAPixel::distanceTo\<close> belongs to the pixel collaborator and is a
  parameter \<open>distanceTo\<close> of the pruning functions; the tolerance, a \<open>double\<close>, is a
  real number.
\<close>

fun leavesUnderTol ::
  "(RGBAPixel \<Rightarrow> RGBAPixel \<Rightarrow> real) \<Rightarrow> node \<Rightarrow> real \<Rightarrow> RGBAPixel \<Rightarrow> bool" where
  "leavesUnderTol distanceTo Null tolerance p = True"
| "leavesUnderTol distanceTo (Node ul lr c nw ne sw se) tolerance p =
     (if nw = Null \<and> ne = Null \<and> sw = Null \<and> se = Null then distanceTo c p \<le> tolerance
      else leavesUnderTol distanceTo nw tolerance p \<and> leavesUnderTol distanceTo ne tolerance p \<and>
           leavesUnderTol distanceTo sw tolerance p \<and> leavesUnderTol distanceTo se tolerance p)"

text \<open>
  \<open>clearSt\<close> releases the four subtrees of a node and sets the four pointers to
  \<open>nullptr\<close>; what it prints is not part of the model.
\<close>

fun clearSt :: "node \<Rightarrow> node" where
  "clearSt Null = Null"
| "clearSt (Node ul lr c nw ne sw se) = Node ul lr c Null Null Null Null"

fun pruneSt :: "(RGBAPixel \<Rightarrow> RGBAPixel \<Rightarrow> real) \<Rightarrow> node \<Rightarrow> real \<Rightarrow> node" where
  "pruneSt distanceTo Null tolerance = Null"
| "pruneSt distanceTo (Node ul lr c nw ne sw se) tolerance =
     (if nw = Null \<and> ne = Null \<and> sw = Null \<and> se = Null then Node ul lr c nw ne sw se
      else if leavesUnderTol distanceTo (Node ul lr c nw ne sw se) tolerance c
        then clearSt (Node ul lr c nw ne sw se)
      else Node ul lr c (pruneSt distanceTo nw tolerance) (pruneSt distanceTo ne tolerance)
             (pruneSt distanceTo sw tolerance) (pruneSt distanceTo se tolerance))"

definition Prune :: "(RGBAPixel \<Rightarrow> RGBAPixel \<Rightarrow> real) \<Rightarrow> real \<Rightarrow> qtree \<Rightarrow> qtree" where
  "Prune distanceTo tolerance t = t\<lparr>root := pruneSt distanceTo (root t) tolerance\<rparr>"

section \<open>Flipping and rotating\<close>

text \<open>\<open>flipHorizontal\<close> reads the member \<open>width\<close> of the tree, here the first argument.\<close>

fun flipHorizontal :: "uint \<Rightarrow> node \<Rightarrow> node" where
  "flipHorizontal w Null = Null"
| "flipHorizontal w (Node ul lr c nw ne sw se) =
     (let newLx = w - 1 - fst lr;
          newRx = w - 1 - fst ul;
          (ulx, lrx) = (if newLx > newRx then (newRx, newLx) else (newLx, newRx))
      in Node (ulx, snd ul) (lrx, snd lr) c
           (flipHorizontal w ne) (flipHorizontal w nw)
           (flipHorizontal w se) (flipHorizontal w sw))"

definition FlipHorizontal :: "qtree \<Rightarrow> qtree" where
  "FlipHorizontal t = t\<lparr>root := flipHorizontal (width t) (root t)\<rparr>"

text \<open>\<open>rotateCCW\<close> reads the member \<open>height\<close> of the tree, here the first argument.\<close>

fun rotateCCW :: "uint \<Rightarrow> node \<Rightarrow> node" where
  "rotateCCW h Null = Null"
| "rotateCCW h (Node ul lr c nw ne sw se) =
     (let uL = (snd ul, h - fst lr - 1);
          lR = (snd lr, h - fst ul - 1)
      in Node uL lR c (rotateCCW h ne) (rotateCCW h se) (rotateCCW h nw) (rotateCCW h sw))"

text \<open>
  \<open>RotateCCW\<close> swaps the members \<open>height\<close> and \<open>width\<close> first; the traversal then reads
  the member \<open>height\<close> as it stands after the swap.
\<close>

definition RotateCCW :: "qtree \<Rightarrow> qtree" where
  "RotateCCW t =
     (let temp = height t;
          t1 = t\<lparr>height := width t\<rparr>;
          t2 = t1\<lparr>width := temp\<rparr>
      in t2\<lparr>root := rotateCCW (height t2) (root t2)\<rparr>)"

section \<open>Counting\<close>

text \<open>
  Modelled from the spec: \<open>CountNodes\<close> and \<open>CountLeaves\<close> are declared in \<open>qtree.h\<close>
  (the number of nodes, the number of leaves of the tree) and defined outside the
  sources; here they count in the natural numbers.
\<close>

fun CountNodes :: "node \<Rightarrow> nat" where
  "CountNodes Null = 0"
| "CountNodes (Node ul lr c nw ne sw se) =
     1 + CountNodes nw + CountNodes ne + CountNodes sw + CountNodes se"

fun CountLeaves :: "node \<Rightarrow> nat" where
  "CountLeaves Null = 0"
| "CountLeaves (Node ul lr c nw ne sw se) =
     (if nw = Null \<and> ne = Null \<and> sw = Null \<and> se = Null then 1
      else CountLeaves nw + CountLeaves ne + CountLeaves sw + CountLeaves se)"

section \<open>Sample rasters and trees\<close>

text \<open>A raster of two black pixels side by side.\<close>

definition img2x1 :: PNG where
  "img2x1 = \<lparr>imgWidth = 2, imgHeight = 1, imgData = (\<lambda>p. RGBAPixel 0 0 0 1)\<rparr>"

text \<open>A raster of two equal pixels of colour \<open>c\<close> side by side.\<close>

definition uniform2x1 :: "RGBAPixel \<Rightarrow> PNG" where
  "uniform2x1 c = \<lparr>imgWidth = 2, imgHeight = 1, imgData = (\<lambda>p. c)\<rparr>"

text \<open>
  The raster of the concrete scenario: the rows \<open>(255,0,0,1), (0,255,0,1)\<close> and
  \<open>(0,0,255,1), (255,255,0,1)\<close>.
\<close>

definition img2x2 :: PNG where
  "img2x2 = \<lparr>imgWidth = 2, imgHeight = 2,
     imgData = (\<lambda>p. if p = (0, 0) then RGBAPixel 255 0 0 1
                   else if p = (1, 0) then RGBAPixel 0 255 0 1
                   else if p = (0, 1) then RGBAPixel 0 0 255 1
                   else RGBAPixel 255 255 0 1)\<rparr>"

text \<open>A raster of three pixels in a row whose red channels are 1, 0 and 2.\<close>

definition img3x1 :: PNG where
  "img3x1 = \<lparr>imgWidth = 3, imgHeight = 1,
     imgData = (\<lambda>p. if p = (0, 0) then RGBAPixel 1 0 0 1
                   else if p = (1, 0) then RGBAPixel 0 0 0 1
                   else RGBAPixel 2 0 0 1)\<rparr>"

text \<open>A raster of 8192 by 4096 white pixels.\<close>

definition white8192x4096 :: PNG where
  "white8192x4096 =
     \<lparr>imgWidth = 8192, imgHeight = 4096, imgData = (\<lambda>p. RGBAPixel 255 255 255 1)\<rparr>"

text \<open>
  Two sample trees with children: the tree of \<open>img3x1\<close> pruned at tolerance 1 under the
  distance of the red channels, and the tree of \<open>img2x2\<close> after one rotation.
\<close>

definition redDistance :: "RGBAPixel \<Rightarrow> RGBAPixel \<Rightarrow> real" where
  "redDistance p q = \<bar>real (unat (red p)) - real (unat (red q))\<bar>"

definition pruned3x1 :: qtree where
  "pruned3x1 = Prune redDistance 1 (the (QTree img3x1))"

definition rotated2x2 :: qtree where
  "rotated2x2 = RotateCCW (the (QTree img2x2))"

section \<open>Properties of rasters and trees\<close>

subsection \<open>Rasters within the 32-bit range\<close>

text \<open>
  \<open>fits32\<close>: the raster has at least one column and one row, no dimension exceeds
  \<open>2 ^ 31\<close> and it has fewer than \<open>2 ^ 32\<close> pixels. For such a raster no coordinate,
  midpoint or area computed by \<open>BuildNode\<close> wraps around, and no area is zero.
  \<open>inside\<close>: a rectangle with ordered corners that lies within the raster.
\<close>

definition fits32 :: "PNG \<Rightarrow> bool" where
  "fits32 img \<longleftrightarrow>
     1 \<le> imgWidth img \<and> imgWidth img \<le> 2 ^ 31 \<and>
     1 \<le> imgHeight img \<and> imgHeight img \<le> 2 ^ 31 \<and>
     unat (imgWidth img) * unat (imgHeight img) < 2 ^ 32"

definition inside :: "PNG \<Rightarrow> uint \<times> uint \<Rightarrow> uint \<times> uint \<Rightarrow> bool" where
  "inside img ul lr \<longleftrightarrow>
     fst ul \<le> fst lr \<and> snd ul \<le> snd lr \<and> fst lr < imgWidth img \<and> snd lr < imgHeight img"

subsection \<open>The trees of the constructor\<close>

text \<open>
  \<open>built img ul lr t\<close>: the tree \<open>t\<close> is what \<open>BuildNode\<close> returns on a rectangle
  inside the raster, with one rule for each branch of the code: a single pixel, a
  rectangle one pixel wide, a rectangle one pixel tall, and the general case. It gives
  the induction principle for the properties of built trees.
\<close>

inductive built :: "PNG \<Rightarrow> uint \<times> uint \<Rightarrow> uint \<times> uint \<Rightarrow> node \<Rightarrow> bool" for img where
  pixel:
    "inside img ul ul \<Longrightarrow> built img ul ul (Node ul ul (imgData img ul) Null Null Null Null)"
| column:
    "\<lbrakk>inside img ul lr; fst lr = fst ul; snd ul \<noteq> snd lr;
      midX = (fst ul + fst lr) div 2; midY = (snd ul + snd lr) div 2;
      built img ul (midX, midY) nw;
      built img (fst ul, midY + 1) (midX, snd lr) sw;
      nodeAvg ul lr midX midY nw Null sw Null = Some c\<rbrakk>
     \<Longrightarrow> built img ul lr (Node ul lr c nw Null sw Null)"
| row:
    "\<lbrakk>inside img ul lr; fst lr \<noteq> fst ul; snd ul = snd lr;
      midX = (fst ul + fst lr) div 2; midY = (snd ul + snd lr) div 2;
      built img ul (midX, midY) nw;
      built img (midX + 1, snd ul) (fst lr, midY) ne;
      nodeAvg ul lr midX midY nw ne Null Null = Some c\<rbrakk>
     \<Longrightarrow> built img ul lr (Node ul lr c nw ne Null Null)"
| quad:
    "\<lbrakk>inside img ul lr; fst lr \<noteq> fst ul; snd ul \<noteq> snd lr;
      midX = (fst ul + fst lr) div 2; midY = (snd ul + snd lr) div 2;
      built img ul (midX, midY) nw;
      built img (midX + 1, snd ul) (fst lr, midY) ne;
      built img (fst ul, midY + 1) (midX, snd lr) sw;
      built img (midX + 1, midY + 1) lr se;
      nodeAvg ul lr midX midY nw ne sw se = Some c\<rbrakk>
     \<Longrightarrow> built img ul lr (Node ul lr c nw ne sw se)"

text \<open>
  The trees the operations of the class can produce from a raster within range:
  \<open>reachable\<close> with pruning, \<open>unpruned\<close> without.
\<close>

inductive reachable :: "qtree \<Rightarrow> bool" where
  build: "fits32 img \<Longrightarrow> QTree img = Some t \<Longrightarrow> reachable t"
| prune: "reachable t \<Longrightarrow> reachable (Prune distanceTo tolerance t)"
| flip: "reachable t \<Longrightarrow> reachable (FlipHorizontal t)"
| rotate: "reachable t \<Longrightarrow> reachable (RotateCCW t)"

inductive unpruned :: "qtree \<Rightarrow> bool" where
  build: "fits32 img \<Longrightarrow> QTree img = Some t \<Longrightarrow> unpruned t"
| flip: "unpruned t \<Longrightarrow> unpruned (FlipHorizontal t)"
| rotate: "unpruned t \<Longrightarrow> unpruned (RotateCCW t)"

subsection \<open>Leaves and rectangles\<close>

text \<open>
  The leaves of a tree in the order \<open>renderNode\<close> visits them; the coordinates between
  two bounds; the pixels of a rectangle given by its corners.
\<close>

fun leaves :: "node \<Rightarrow> node list" where
  "leaves Null = []"
| "leaves (Node ul lr c nw ne sw se) =
     (if nw = Null \<and> ne = Null \<and> sw = Null \<and> se = Null then [Node ul lr c nw ne sw se]
      else leaves nw @ leaves ne @ leaves sw @ leaves se)"

definition seg :: "uint \<Rightarrow> uint \<Rightarrow> uint set" where
  "seg a b = {x. a \<le> x \<and> x \<le> b}"

definition rect :: "uint \<times> uint \<Rightarrow> uint \<times> uint \<Rightarrow> (uint \<times> uint) set" where
  "rect ul lr = seg (fst ul) (fst lr) \<times> seg (snd ul) (snd lr)"

text \<open>
  \<open>wfNode w h\<close>: every rectangle of the tree has ordered corners and lies within
  \<open>w\<close> columns and \<open>h\<close> rows. \<open>pixelLeaves F w h\<close>: every leaf is a single pixel within
  \<open>w\<close> columns and \<open>h\<close> rows and holds the colour \<open>F\<close> gives to its position.
\<close>

fun wfNode :: "uint \<Rightarrow> uint \<Rightarrow> node \<Rightarrow> bool" where
  "wfNode w h Null = True"
| "wfNode w h (Node ul lr c nw ne sw se) =
     (fst ul \<le> fst lr \<and> fst lr < w \<and> snd ul \<le> snd lr \<and> snd lr < h \<and>
      wfNode w h nw \<and> wfNode w h ne \<and> wfNode w h sw \<and> wfNode w h se)"

definition pixelLeaves :: "(uint \<times> uint \<Rightarrow> RGBAPixel) \<Rightarrow> uint \<Rightarrow> uint \<Rightarrow> node \<Rightarrow> bool" where
  "pixelLeaves F w h n \<longleftrightarrow>
     (\<forall>l \<in> set (leaves n). upLeft l = lowRight l \<and> fst (upLeft l) < w \<and> snd (upLeft l) < h \<and>
        avg l = F (upLeft l))"

text \<open>The raster \<open>cv\<close> with the pixels of \<open>S\<close> overwritten by the colours \<open>F\<close> gives.\<close>

definition paint :: "PNG \<Rightarrow> (uint \<times> uint) set \<Rightarrow> (uint \<times> uint \<Rightarrow> RGBAPixel) \<Rightarrow> PNG" where
  "paint cv S F = cv\<lparr>imgData := (\<lambda>p. if p \<in> S then F p else imgData cv p)\<rparr>"

subsection \<open>The split rule\<close>

text \<open>
  \<open>splitRule\<close> states the rule of the specification at every node, with the midpoints
  as floors of the exact means (\<open>midpoint\<close>): a single pixel is a leaf; otherwise NW is
  \<open>[ul, (midX, midY)]\<close>; a rectangle one pixel wide has only NW and SW, SW being
  \<open>[(ul.x, midY + 1), (midX, lr.y)]\<close>; any other has NE \<open>[(midX + 1, ul.y), (lr.x, midY)]\<close>,
  and, unless it is one pixel tall, also SW and SE \<open>[(midX + 1, midY + 1), lr]\<close>.
\<close>

definition covers :: "node \<Rightarrow> uint \<times> uint \<Rightarrow> uint \<times> uint \<Rightarrow> bool" where
  "covers n ul lr \<longleftrightarrow> n \<noteq> Null \<and> upLeft n = ul \<and> lowRight n = lr"

definition midpoint :: "uint \<Rightarrow> uint \<Rightarrow> uint" where
  "midpoint a b = of_nat ((unat a + unat b) div 2)"

fun splitRule :: "node \<Rightarrow> bool" where
  "splitRule Null = True"
| "splitRule (Node ul lr c nw ne sw se) =
     (let midX = midpoint (fst ul) (fst lr); midY = midpoint (snd ul) (snd lr)
      in if ul = lr then nw = Null \<and> ne = Null \<and> sw = Null \<and> se = Null
         else covers nw ul (midX, midY) \<and> splitRule nw \<and>
           (if fst ul = fst lr then
              ne = Null \<and> se = Null \<and>
              covers sw (fst ul, midY + 1) (midX, snd lr) \<and> splitRule sw
            else covers ne (midX + 1, snd ul) (fst lr, midY) \<and> splitRule ne \<and>
              (if snd ul = snd lr then sw = Null \<and> se = Null
               else covers sw (fst ul, midY + 1) (midX, snd lr) \<and> splitRule sw \<and>
                    covers se (midX + 1, midY + 1) lr \<and> splitRule se)))"

subsection \<open>A quarter turn\<close>

text \<open>
  \<open>rotated h old new\<close>: the tree \<open>new\<close> is \<open>old\<close> with, at every node, the corners
  recomputed from the old corners and the value \<open>h\<close> as
  \<open>(oldUpLeft.y, h - oldLowRight.x - 1)\<close> and \<open>(oldLowRight.y, h - oldUpLeft.x - 1)\<close>,
  the colour kept, and the children moved a quarter turn (old NE to NW, old SE to NE,
  old NW to SW, old SW to SE).
\<close>

fun rotated :: "uint \<Rightarrow> node \<Rightarrow> node \<Rightarrow> bool" where
  "rotated h Null Null = True"
| "rotated h (Node ul lr c nw ne sw se) (Node ul' lr' c' nw' ne' sw' se') =
     (ul' = (snd ul, h - fst lr - 1) \<and> lr' = (snd lr, h - fst ul - 1) \<and> c' = c \<and>
      rotated h ne nw' \<and> rotated h se ne' \<and> rotated h nw sw' \<and> rotated h sw se')"
| "rotated h Null (Node ul' lr' c' nw' ne' sw' se') = False"
| "rotated h (Node ul lr c nw ne sw se) Null = False"

subsection \<open>The averaging rule\<close>

text \<open>
  The area of the rectangle a node stores, in the arithmetic of the code and as the
  number of its pixels.
\<close>

fun nodeArea :: "node \<Rightarrow> uint" where
  "nodeArea Null = 0"
| "nodeArea (Node ul lr c nw ne sw se) = (fst lr - fst ul + 1) * (snd lr - snd ul + 1)"

fun pixelCount :: "node \<Rightarrow> nat" where
  "pixelCount Null = 0"
| "pixelCount (Node ul lr c nw ne sw se) =
     (unat (fst lr) - unat (fst ul) + 1) * (unat (snd lr) - unat (snd ul) + 1)"

text \<open>
  What a child adds to the sum of a channel: its average times an area, nothing when
  the child is absent. \<open>share\<close> is the product in the unsigned 32-bit arithmetic of the
  code, \<open>shareExact\<close> the product in the natural numbers with the area counted in
  pixels, \<open>shareAlpha\<close> the product of the continuous channel.
\<close>

fun share :: "(RGBAPixel \<Rightarrow> 8 word) \<Rightarrow> node \<Rightarrow> uint \<Rightarrow> uint" where
  "share ch Null area = 0"
| "share ch (Node ul lr c nw ne sw se) area = ucast (ch c) * area"

fun shareAlpha :: "node \<Rightarrow> nat \<Rightarrow> real" where
  "shareAlpha Null area = 0"
| "shareAlpha (Node ul lr c nw ne sw se) area = alpha c * real area"

fun shareExact :: "(RGBAPixel \<Rightarrow> 8 word) \<Rightarrow> node \<Rightarrow> nat" where
  "shareExact ch Null = 0"
| "shareExact ch (Node ul lr c nw ne sw se) =
     unat (ch c) * pixelCount (Node ul lr c nw ne sw se)"

text \<open>
  \<open>avgAt\<close>: each colour channel of the node's \<open>avg\<close> is the sum over the present
  children of the child's channel times the child's area, divided by the area of the
  node, all in the unsigned 32-bit arithmetic of the code, where the sum wraps around.
  \<open>avgRule\<close>: this holds at every internal node.
\<close>

definition avgAt :: "node \<Rightarrow> bool" where
  "avgAt n \<longleftrightarrow>
     (let total = (\<lambda>ch. share ch (NW n) (nodeArea (NW n)) + share ch (NE n) (nodeArea (NE n)) +
                         share ch (SW n) (nodeArea (SW n)) + share ch (SE n) (nodeArea (SE n)))
      in red (avg n) = ucast (total red div nodeArea n) \<and>
         green (avg n) = ucast (total green div nodeArea n) \<and>
         blue (avg n) = ucast (total blue div nodeArea n))"

fun avgRule :: "node \<Rightarrow> bool" where
  "avgRule Null = True"
| "avgRule (Node ul lr c nw ne sw se) =
     (if nw = Null \<and> ne = Null \<and> sw = Null \<and> se = Null then True
      else avgAt (Node ul lr c nw ne sw se) \<and>
           avgRule nw \<and> avgRule ne \<and> avgRule sw \<and> avgRule se)"

text \<open>
  \<open>weightedMean ch n\<close>: the sum over the present children of \<open>n\<close> of the child's channel
  times the child's number of pixels, divided by the number of pixels of \<open>n\<close>, in the
  natural numbers with truncating division. \<open>colourAt ch n\<close>: the channel of the
  node's \<open>avg\<close> is this quotient.
\<close>

definition weightedMean :: "(RGBAPixel \<Rightarrow> 8 word) \<Rightarrow> node \<Rightarrow> nat" where
  "weightedMean ch n =
     (shareExact ch (NW n) + shareExact ch (NE n) + shareExact ch (SW n) + shareExact ch (SE n))
     div pixelCount n"

definition colourAt :: "(RGBAPixel \<Rightarrow> 8 word) \<Rightarrow> node \<Rightarrow> bool" where
  "colourAt ch n \<longleftrightarrow> unat (ch (avg n)) = weightedMean ch n"

subsection \<open>True means\<close>

text \<open>
  The true mean of a colour channel over a rectangle, computed directly from the
  raster: the sum of the channel over the pixels of the rectangle divided by their
  number, truncated.
\<close>

definition channelSum :: "(RGBAPixel \<Rightarrow> 8 word) \<Rightarrow> PNG \<Rightarrow> uint \<times> uint \<Rightarrow> uint \<times> uint \<Rightarrow> nat" where
  "channelSum ch img ul lr = (\<Sum>p \<in> rect ul lr. unat (ch (imgData img p)))"

definition trueMean :: "(RGBAPixel \<Rightarrow> 8 word) \<Rightarrow> PNG \<Rightarrow> uint \<times> uint \<Rightarrow> uint \<times> uint \<Rightarrow> nat" where
  "trueMean ch img ul lr = channelSum ch img ul lr div card (rect ul lr)"

text \<open>
  \<open>levels n\<close>: the number of levels of internal nodes from \<open>n\<close> down to its deepest
  leaf; 0 for a leaf, 1 for a node whose children are all leaves.
\<close>

fun levels :: "node \<Rightarrow> nat" where
  "levels Null = 0"
| "levels (Node ul lr c nw ne sw se) =
     (if nw = Null \<and> ne = Null \<and> sw = Null \<and> se = Null then 0
      else Suc (max (max (levels nw) (levels ne)) (max (levels sw) (levels se))))"

text \<open>
  \<open>nearAt ch img n\<close>: the channel of the node's \<open>avg\<close> does not exceed the truncated
  true mean over the node's rectangle and falls short of it by at most \<open>levels n - 1\<close>,
  one for each level of truncation below the first. \<open>meanAt\<close>: every colour channel of
  the node's \<open>avg\<close> is the truncated weighted mean of the children's averages and is
  that near to the true mean. \<open>meanRule\<close>: every leaf holds the source pixel of its
  corner, and \<open>meanAt\<close> holds at every internal node whose rectangle is small enough
  for the sums of the code not to wrap, that is, 255 times its number of pixels is
  below \<open>2 ^ 32\<close>.
\<close>

definition nearAt :: "(RGBAPixel \<Rightarrow> 8 word) \<Rightarrow> PNG \<Rightarrow> node \<Rightarrow> bool" where
  "nearAt ch img n \<longleftrightarrow>
     unat (ch (avg n)) \<le> trueMean ch img (upLeft n) (lowRight n) \<and>
     trueMean ch img (upLeft n) (lowRight n) \<le> unat (ch (avg n)) + (levels n - 1)"

definition meanAt :: "PNG \<Rightarrow> node \<Rightarrow> bool" where
  "meanAt img n \<longleftrightarrow>
     colourAt red n \<and> colourAt green n \<and> colourAt blue n \<and>
     nearAt red img n \<and> nearAt green img n \<and> nearAt blue img n"

fun meanRule :: "PNG \<Rightarrow> node \<Rightarrow> bool" where
  "meanRule img Null = True"
| "meanRule img (Node ul lr c nw ne sw se) =
     ((if nw = Null \<and> ne = Null \<and> sw = Null \<and> se = Null then c = imgData img ul
       else (255 * pixelCount (Node ul lr c nw ne sw se) < 2 ^ 32 \<longrightarrow>
             meanAt img (Node ul lr c nw ne sw se))) \<and>
      meanRule img nw \<and> meanRule img ne \<and> meanRule img sw \<and> meanRule img se)"

section \<open>Counts under flipping and rotating\<close>

lemma flipHorizontal_Null_iff: "flipHorizontal w n = Null \<longleftrightarrow> n = Null"
  by (cases n) (simp_all add: Let_def split: prod.splits)

lemma rotateCCW_Null_iff: "rotateCCW h n = Null \<longleftrightarrow> n = Null"
  by (cases n) (simp_all add: Let_def)

lemma CountNodes_flipHorizontal: "CountNodes (flipHorizontal w n) = CountNodes n"
  by (induction n) (simp_all add: Let_def split: prod.splits)

lemma CountLeaves_flipHorizontal: "CountLeaves (flipHorizontal w n) = CountLeaves n"
  by (induction n) (auto simp: Let_def flipHorizontal_Null_iff split: prod.splits)

lemma CountNodes_rotateCCW: "CountNodes (rotateCCW h n) = CountNodes n"
  by (induction n) (simp_all add: Let_def)

lemma CountLeaves_rotateCCW: "CountLeaves (rotateCCW h n) = CountLeaves n"
  by (induction n) (auto simp: Let_def rotateCCW_Null_iff)

text \<open>
  C10: \<open>FlipHorizontal\<close> and \<open>RotateCCW\<close> each keep the number of nodes and the number
  of leaves of the tree: no node is created or destroyed and a node is a leaf after
  the operation exactly when it was one before.
\<close>

theorem transforms_preserve_counts:
  "CountNodes (root (FlipHorizontal t)) = CountNodes (root t) \<and>
   CountLeaves (root (FlipHorizontal t)) = CountLeaves (root t) \<and>
   CountNodes (root (RotateCCW t)) = CountNodes (root t) \<and>
   CountLeaves (root (RotateCCW t)) = CountLeaves (root t)"
  by (simp add: FlipHorizontal_def RotateCCW_def Let_def CountNodes_flipHorizontal
      CountLeaves_flipHorizontal CountNodes_rotateCCW CountLeaves_rotateCCW)

section \<open>The corners after a rotation\<close>

lemma rotated_rotateCCW: "rotated h n (rotateCCW h n)"
  by (induction n) (simp_all add: Let_def)

text \<open>
  C7, as amended: during \<open>RotateCCW\<close> the corners of every node are recomputed with
  the member \<open>height\<close> as it stands after the swap of \<open>width\<close> and \<open>height\<close>, which is the
  width of the tree before the rotation:
  \<open>newUpLeft = (oldUpLeft.y, width - oldLowRight.x - 1)\<close> and
  \<open>newLowRight = (oldLowRight.y, width - oldUpLeft.x - 1)\<close>.
\<close>

theorem RotateCCW_corners_use_old_width:
  "rotated (width t) (root t) (root (RotateCCW t)) \<and>
   height (RotateCCW t) = width t \<and> width (RotateCCW t) = height t"
  by (simp add: RotateCCW_def Let_def rotated_rotateCCW)

text \<open>
  C7 as stated fails: on the raster of two pixels side by side (width 2, height 1) the
  corners after \<open>RotateCCW\<close> are not the ones computed from the height before the
  rotation.
\<close>

theorem RotateCCW_old_height_counterexample:
  "QTree img2x1 \<noteq> None \<and>
   \<not> rotated (height (the (QTree img2x1))) (root (the (QTree img2x1)))
        (root (RotateCCW (the (QTree img2x1))))"
  by (simp add: QTree_def BuildNode.simps getPixel_def nodeAvg_def img2x1_def RotateCCW_def)

section \<open>Arithmetic of coordinates\<close>

text \<open>
  Within the range of \<open>fits32\<close> the 32-bit operations of \<open>BuildNode\<close> agree with the
  operations on natural numbers: the midpoint is the floor of the mean, it lies between
  the bounds, and the areas are the numbers of pixels.
\<close>

lemma unat_mid:
  fixes a b :: uint
  assumes "a \<le> b" "b < 2 ^ 31"
  shows "unat ((a + b) div 2) = (unat a + unat b) div 2"
proof -
  have b: "unat b < 2 ^ 31" using assms(2) by (simp add: word_less_nat_alt)
  have ab: "unat a \<le> unat b" using assms(1) by (simp add: word_le_nat_alt)
  have "unat a + unat b < 2 ^ LENGTH(32)" using ab b by simp
  then have "unat (a + b) = unat a + unat b" by (simp only: unat_add_lem)
  then show ?thesis by (simp add: unat_div)
qed

lemma unat_plus_one:
  fixes m b :: uint
  assumes "m < b"
  shows "unat (m + 1) = unat m + 1"
proof -
  have "unat m < unat b" using assms by (simp add: word_less_nat_alt)
  moreover have "unat b < 2 ^ LENGTH(32)" by (rule unsigned_less)
  ultimately have "unat m + unat (1 :: uint) < 2 ^ LENGTH(32)" by simp
  then have "unat (m + 1) = unat m + unat (1 :: uint)" by (simp only: unat_add_lem)
  then show ?thesis by simp
qed

lemma unat_extent:
  fixes a b :: uint
  assumes "a \<le> b" "b < 2 ^ 31"
  shows "unat (b - a + 1) = unat b - unat a + 1"
proof -
  have b: "unat b < 2 ^ 31" using assms(2) by (simp add: word_less_nat_alt)
  have d: "unat (b - a) = unat b - unat a" using assms(1) by (rule unat_sub)
  have "unat (b - a) + unat (1 :: uint) < 2 ^ LENGTH(32)" using b d by simp
  then have "unat (b - a + 1) = unat (b - a) + unat (1 :: uint)" by (simp only: unat_add_lem)
  then show ?thesis using d by simp
qed

lemma mid_bounds:
  fixes a b :: uint
  assumes "a \<le> b" "b < 2 ^ 31"
  shows "a \<le> (a + b) div 2" and "(a + b) div 2 \<le> b"
proof -
  have ab: "unat a \<le> unat b" using assms(1) by (simp add: word_le_nat_alt)
  show "a \<le> (a + b) div 2" using ab by (simp add: word_le_nat_alt unat_mid [OF assms])
  show "(a + b) div 2 \<le> b" using ab by (simp add: word_le_nat_alt unat_mid [OF assms])
qed

lemma mid_less:
  fixes a b :: uint
  assumes "a \<le> b" "a \<noteq> b" "b < 2 ^ 31"
  shows "(a + b) div 2 < b"
proof -
  have "unat a \<le> unat b" using assms(1) by (simp add: word_le_nat_alt)
  moreover have "unat a \<noteq> unat b" using assms(2) by (simp add: word_unat_eq_iff)
  ultimately show ?thesis
    by (simp add: word_less_nat_alt unat_mid [OF assms(1,3)])
qed

lemma mid_succ:
  fixes a b :: uint
  assumes "a \<le> b" "a \<noteq> b" "b < 2 ^ 31"
  shows "unat ((a + b) div 2 + 1) = (unat a + unat b) div 2 + 1"
    and "(a + b) div 2 + 1 \<le> b"
proof -
  have lt: "(a + b) div 2 < b" using assms by (rule mid_less)
  show u: "unat ((a + b) div 2 + 1) = (unat a + unat b) div 2 + 1"
    by (simp add: unat_plus_one [OF lt] unat_mid [OF assms(1,3)])
  have "unat ((a + b) div 2) < unat b" using lt by (simp add: word_less_nat_alt)
  then show "(a + b) div 2 + 1 \<le> b"
    by (simp add: word_le_nat_alt u unat_mid [OF assms(1,3)])
qed

lemma mid_same:
  fixes a :: uint
  assumes "a < 2 ^ 31"
  shows "(a + a) div 2 = a"
proof -
  have "a \<le> a" by simp
  then have "unat ((a + a) div 2) = (unat a + unat a) div 2"
    using assms by (rule unat_mid)
  also have "\<dots> = unat a" by simp
  finally show ?thesis by (rule iffD2 [OF word_unat_eq_iff])
qed

lemma fits32_width: "fits32 img \<Longrightarrow> x < imgWidth img \<Longrightarrow> x < 2 ^ 31"
  by (rule less_le_trans [of x "imgWidth img"]) (simp_all add: fits32_def)

lemma fits32_height: "fits32 img \<Longrightarrow> y < imgHeight img \<Longrightarrow> y < 2 ^ 31"
  by (rule less_le_trans [of y "imgHeight img"]) (simp_all add: fits32_def)

lemma unat_area:
  assumes "fits32 img" "inside img ul lr"
  shows "unat ((fst lr - fst ul + 1) * (snd lr - snd ul + 1)) =
         (unat (fst lr) - unat (fst ul) + 1) * (unat (snd lr) - unat (snd ul) + 1)"
proof -
  from assms(2) have i: "fst ul \<le> fst lr" "snd ul \<le> snd lr"
      "fst lr < imgWidth img" "snd lr < imgHeight img"
    by (simp_all add: inside_def)
  have x: "fst ul \<le> fst lr" "fst lr < 2 ^ 31"
    using i(1) fits32_width [OF assms(1) i(3)] by this+
  have y: "snd ul \<le> snd lr" "snd lr < 2 ^ 31"
    using i(2) fits32_height [OF assms(1) i(4)] by this+
  have ex: "unat (fst lr - fst ul + 1) = unat (fst lr) - unat (fst ul) + 1"
    using x by (rule unat_extent)
  have ey: "unat (snd lr - snd ul + 1) = unat (snd lr) - unat (snd ul) + 1"
    using y by (rule unat_extent)
  have "unat (fst lr) < unat (imgWidth img)" "unat (snd lr) < unat (imgHeight img)"
    using assms(2) by (simp_all add: inside_def word_less_nat_alt)
  then have "unat (fst lr) - unat (fst ul) + 1 \<le> unat (imgWidth img)"
    and "unat (snd lr) - unat (snd ul) + 1 \<le> unat (imgHeight img)"
    by arith+
  then have "(unat (fst lr) - unat (fst ul) + 1) * (unat (snd lr) - unat (snd ul) + 1)
      \<le> unat (imgWidth img) * unat (imgHeight img)"
    by (rule mult_le_mono)
  also have "\<dots> < 2 ^ 32" using assms(1) by (simp add: fits32_def)
  finally have "unat (fst lr - fst ul + 1) * unat (snd lr - snd ul + 1) < 2 ^ LENGTH(32)"
    by (simp add: ex ey)
  then have "unat ((fst lr - fst ul + 1) * (snd lr - snd ul + 1)) =
      unat (fst lr - fst ul + 1) * unat (snd lr - snd ul + 1)"
    by (simp only: unat_mult_lem)
  then show ?thesis by (simp only: ex ey)
qed

lemma nodeAvg_Some:
  assumes "fits32 img" "inside img ul lr"
  shows "\<exists>c. nodeAvg ul lr midX midY nw ne sw se = Some c"
proof -
  have "unat ((fst lr - fst ul + 1) * (snd lr - snd ul + 1)) \<noteq> 0"
    by (simp add: unat_area [OF assms])
  then have "(fst lr - fst ul + 1) * (snd lr - snd ul + 1) \<noteq> 0"
    by (simp only: unat_eq_0 not_False_eq_True)
  then show ?thesis
    by (simp add: nodeAvg_def Let_def split: prod.splits)
qed

lemma axis_nw:
  fixes a b :: uint
  assumes "a \<le> b" "b < 2 ^ 31"
  shows "a \<le> (a + b) div 2" and "(a + b) div 2 \<le> b"
    and "unat ((a + b) div 2) - unat a \<le> unat b - unat a"
    and "a \<noteq> b \<Longrightarrow> unat ((a + b) div 2) - unat a < unat b - unat a"
proof -
  have ab: "unat a \<le> unat b" using assms(1) by (simp add: word_le_nat_alt)
  show "a \<le> (a + b) div 2" "(a + b) div 2 \<le> b" using assms by (rule mid_bounds)+
  show "unat ((a + b) div 2) - unat a \<le> unat b - unat a"
    using ab by (simp add: unat_mid [OF assms])
  assume "a \<noteq> b"
  then have "unat a \<noteq> unat b" by (simp add: word_unat_eq_iff)
  then show "unat ((a + b) div 2) - unat a < unat b - unat a"
    using ab by (simp add: unat_mid [OF assms])
qed

lemma axis_se:
  fixes a b :: uint
  assumes "a \<le> b" "a \<noteq> b" "b < 2 ^ 31"
  shows "(a + b) div 2 + 1 \<le> b"
    and "unat b - unat ((a + b) div 2 + 1) < unat b - unat a"
proof -
  have ab: "unat a \<le> unat b" using assms(1) by (simp add: word_le_nat_alt)
  have ne: "unat a \<noteq> unat b" using assms(2) by (simp add: word_unat_eq_iff)
  show "(a + b) div 2 + 1 \<le> b" using assms by (rule mid_succ)
  show "unat b - unat ((a + b) div 2 + 1) < unat b - unat a"
    using ab ne by (simp add: mid_succ(1) [OF assms])
qed

section \<open>The constructor returns\<close>

text \<open>
  One equation for each branch of \<open>BuildNode\<close>, and the proof that on a rectangle inside
  a raster within range the recursion ends and returns a tree of \<open>built\<close>, by induction
  on the width plus the height of the rectangle.
\<close>

lemma BuildNode_pixel:
  "BuildNode img ul ul =
     getPixel img (fst ul) (snd ul) \<bind> (\<lambda>p. Some (Node ul ul p Null Null Null Null))"
  by (subst BuildNode.simps) simp

lemma BuildNode_column:
  assumes "ul \<noteq> lr" "fst lr = fst ul"
  shows "BuildNode img ul lr =
    BuildNode img ul ((fst ul + fst lr) div 2, (snd ul + snd lr) div 2) \<bind> (\<lambda>nw.
    BuildNode img (fst ul, (snd ul + snd lr) div 2 + 1) ((fst ul + fst lr) div 2, snd lr) \<bind> (\<lambda>sw.
    nodeAvg ul lr ((fst ul + fst lr) div 2) ((snd ul + snd lr) div 2) nw Null sw Null \<bind> (\<lambda>c.
    Some (Node ul lr c nw Null sw Null))))"
  using assms by (subst BuildNode.simps) (simp add: Let_def)

lemma BuildNode_row:
  assumes "ul \<noteq> lr" "fst lr \<noteq> fst ul" "snd ul = snd lr"
  shows "BuildNode img ul lr =
    BuildNode img ul ((fst ul + fst lr) div 2, (snd ul + snd lr) div 2) \<bind> (\<lambda>nw.
    BuildNode img ((fst ul + fst lr) div 2 + 1, snd ul) (fst lr, (snd ul + snd lr) div 2) \<bind> (\<lambda>ne.
    nodeAvg ul lr ((fst ul + fst lr) div 2) ((snd ul + snd lr) div 2) nw ne Null Null \<bind> (\<lambda>c.
    Some (Node ul lr c nw ne Null Null))))"
  using assms by (subst BuildNode.simps) (simp add: Let_def)

lemma BuildNode_quad:
  assumes "ul \<noteq> lr" "fst lr \<noteq> fst ul" "snd ul \<noteq> snd lr"
  shows "BuildNode img ul lr =
    BuildNode img ul ((fst ul + fst lr) div 2, (snd ul + snd lr) div 2) \<bind> (\<lambda>nw.
    BuildNode img ((fst ul + fst lr) div 2 + 1, snd ul) (fst lr, (snd ul + snd lr) div 2) \<bind> (\<lambda>ne.
    BuildNode img (fst ul, (snd ul + snd lr) div 2 + 1) ((fst ul + fst lr) div 2, snd lr) \<bind> (\<lambda>sw.
    BuildNode img ((fst ul + fst lr) div 2 + 1, (snd ul + snd lr) div 2 + 1) lr \<bind> (\<lambda>se.
    nodeAvg ul lr ((fst ul + fst lr) div 2) ((snd ul + snd lr) div 2) nw ne sw se \<bind> (\<lambda>c.
    Some (Node ul lr c nw ne sw se))))))"
  using assms by (subst BuildNode.simps) (simp add: Let_def)


lemma insideI:
  "\<lbrakk>fst ul \<le> fst lr; snd ul \<le> snd lr; fst lr < imgWidth img; snd lr < imgHeight img\<rbrakk>
   \<Longrightarrow> inside img ul lr"
  by (simp add: inside_def)

lemma BuildNode_built:
  assumes f: "fits32 img"
  shows "inside img ul lr \<Longrightarrow> \<exists>t. BuildNode img ul lr = Some t \<and> built img ul lr t"
proof (induction "unat (fst lr) - unat (fst ul) + (unat (snd lr) - unat (snd ul))"
    arbitrary: ul lr rule: less_induct)
  case less
  note ins = \<open>inside img ul lr\<close>
  from ins have xle: "fst ul \<le> fst lr" and yle: "snd ul \<le> snd lr"
    and xw: "fst lr < imgWidth img" and yh: "snd lr < imgHeight img"
    by (simp_all add: inside_def)
  have xb: "fst lr < 2 ^ 31" using f xw by (rule fits32_width)
  have yb: "snd lr < 2 ^ 31" using f yh by (rule fits32_height)
  define midX where "midX = (fst ul + fst lr) div 2"
  define midY where "midY = (snd ul + snd lr) div 2"
  note mx = axis_nw [OF xle xb, folded midX_def]
  note my = axis_nw [OF yle yb, folded midY_def]
  have mxw: "midX < imgWidth img" using mx(2) xw by (rule le_less_trans)
  have myh: "midY < imgHeight img" using my(2) yh by (rule le_less_trans)
  show ?case
  proof (cases "ul = lr")
    case True
    then have "inside img ul ul" using ins by simp
    moreover have "BuildNode img ul ul = Some (Node ul ul (imgData img ul) Null Null Null Null)"
      using xw yh True by (simp add: BuildNode_pixel getPixel_def)
    ultimately show ?thesis using True by (auto intro: built.pixel)
  next
    case False
    then have ne_xy: "fst ul \<noteq> fst lr \<or> snd ul \<noteq> snd lr" by (auto simp: prod_eq_iff)
    have "inside img ul (midX, midY)"
      using mx(1) my(1) mxw myh by (simp add: inside_def)
    moreover have "unat (fst (midX, midY)) - unat (fst ul) + (unat (snd (midX, midY)) - unat (snd ul))
        < unat (fst lr) - unat (fst ul) + (unat (snd lr) - unat (snd ul))"
      using ne_xy mx(3,4) my(3,4) by auto
    ultimately obtain nw where nw: "BuildNode img ul (midX, midY) = Some nw"
        "built img ul (midX, midY) nw"
      using less.hyps by blast
    show ?thesis
    proof (cases "fst lr = fst ul")
      case True
      then have yne: "snd ul \<noteq> snd lr" using ne_xy by simp
      note sy = axis_se [OF yle yne yb, folded midY_def]
      have "inside img (fst ul, midY + 1) (midX, snd lr)"
        using mx(1) sy(1) mxw yh by (simp add: inside_def)
      moreover have "unat (fst (midX, snd lr)) - unat (fst (fst ul, midY + 1)) +
          (unat (snd (midX, snd lr)) - unat (snd (fst ul, midY + 1)))
        < unat (fst lr) - unat (fst ul) + (unat (snd lr) - unat (snd ul))"
        using mx(3) sy(2) by simp
      ultimately obtain sw where sw: "BuildNode img (fst ul, midY + 1) (midX, snd lr) = Some sw"
          "built img (fst ul, midY + 1) (midX, snd lr) sw"
        using less.hyps by blast
      obtain c where c: "nodeAvg ul lr midX midY nw Null sw Null = Some c"
        using nodeAvg_Some [OF f ins] by blast
      have "BuildNode img ul lr = Some (Node ul lr c nw Null sw Null)"
        using nw(1) sw(1) c
        by (simp add: BuildNode_column [OF False True] midX_def [symmetric] midY_def [symmetric])
      moreover have "built img ul lr (Node ul lr c nw Null sw Null)"
        using ins True yne midX_def midY_def nw(2) sw(2) c by (rule built.column)
      ultimately show ?thesis by blast
    next
      case xne: False
      then have xne': "fst ul \<noteq> fst lr" by simp
      note sx = axis_se [OF xle xne' xb, folded midX_def]
      have "inside img (midX + 1, snd ul) (fst lr, midY)"
        using sx(1) my(1) xw myh by (simp add: inside_def)
      moreover have "unat (fst (fst lr, midY)) - unat (fst (midX + 1, snd ul)) +
          (unat (snd (fst lr, midY)) - unat (snd (midX + 1, snd ul)))
        < unat (fst lr) - unat (fst ul) + (unat (snd lr) - unat (snd ul))"
        using sx(2) my(3) by simp
      ultimately obtain ne where ne: "BuildNode img (midX + 1, snd ul) (fst lr, midY) = Some ne"
          "built img (midX + 1, snd ul) (fst lr, midY) ne"
        using less.hyps by blast
      show ?thesis
      proof (cases "snd ul = snd lr")
        case True
        obtain c where c: "nodeAvg ul lr midX midY nw ne Null Null = Some c"
          using nodeAvg_Some [OF f ins] by blast
        have "BuildNode img ul lr = Some (Node ul lr c nw ne Null Null)"
          using nw(1) ne(1) c
          by (simp add: BuildNode_row [OF False xne True] midX_def [symmetric] midY_def [symmetric])
        moreover have "built img ul lr (Node ul lr c nw ne Null Null)"
          using ins xne True midX_def midY_def nw(2) ne(2) c by (rule built.row)
        ultimately show ?thesis by blast
      next
        case yne: False
        note sy = axis_se [OF yle yne yb, folded midY_def]
        have "inside img (fst ul, midY + 1) (midX, snd lr)"
          using mx(1) sy(1) mxw yh by (simp add: inside_def)
        moreover have "unat (fst (midX, snd lr)) - unat (fst (fst ul, midY + 1)) +
            (unat (snd (midX, snd lr)) - unat (snd (fst ul, midY + 1)))
          < unat (fst lr) - unat (fst ul) + (unat (snd lr) - unat (snd ul))"
          using mx(3) sy(2) by simp
        ultimately obtain sw where sw: "BuildNode img (fst ul, midY + 1) (midX, snd lr) = Some sw"
            "built img (fst ul, midY + 1) (midX, snd lr) sw"
          using less.hyps by blast
        have "inside img (midX + 1, midY + 1) lr"
          using sx(1) sy(1) xw yh by (simp add: inside_def)
        moreover have "unat (fst lr) - unat (fst (midX + 1, midY + 1)) +
            (unat (snd lr) - unat (snd (midX + 1, midY + 1)))
          < unat (fst lr) - unat (fst ul) + (unat (snd lr) - unat (snd ul))"
          using sx(2) sy(2) by simp
        ultimately obtain se where se: "BuildNode img (midX + 1, midY + 1) lr = Some se"
            "built img (midX + 1, midY + 1) lr se"
          using less.hyps by blast
        obtain c where c: "nodeAvg ul lr midX midY nw ne sw se = Some c"
          using nodeAvg_Some [OF f ins] by blast
        have "BuildNode img ul lr = Some (Node ul lr c nw ne sw se)"
          using nw(1) ne(1) sw(1) se(1) c
          by (simp add: BuildNode_quad [OF False xne yne] midX_def [symmetric] midY_def [symmetric])
        moreover have "built img ul lr (Node ul lr c nw ne sw se)"
          using ins xne yne midX_def midY_def nw(2) ne(2) sw(2) se(2) c by (rule built.quad)
        ultimately show ?thesis by blast
      qed
    qed
  qed
qed

section \<open>The leaves of a built tree\<close>

lemma seg_single: "seg a a = {a}"
  by (auto simp: seg_def)

lemma seg_split:
  fixes a b :: uint
  assumes "a \<le> b" "a \<noteq> b" "b < 2 ^ 31"
  shows "seg a b = seg a ((a + b) div 2) \<union> seg ((a + b) div 2 + 1) b"
    and "seg a ((a + b) div 2) \<inter> seg ((a + b) div 2 + 1) b = {}"
proof -
  have ab: "unat a \<le> unat b" using assms(1) by (simp add: word_le_nat_alt)
  have ne: "unat a \<noteq> unat b" using assms(2) by (simp add: word_unat_eq_iff)
  note m = unat_mid [OF assms(1,3)]
  note s = mid_succ(1) [OF assms]
  show "seg a b = seg a ((a + b) div 2) \<union> seg ((a + b) div 2 + 1) b"
    using ab ne by (auto simp: seg_def word_le_nat_alt m s)
  show "seg a ((a + b) div 2) \<inter> seg ((a + b) div 2 + 1) b = {}"
    by (auto simp: seg_def word_le_nat_alt m s)
qed

lemma built_not_Null: "built img ul lr t \<Longrightarrow> t \<noteq> Null"
  by (erule built.cases) simp_all

lemma built_corners: "built img ul lr t \<Longrightarrow> upLeft t = ul \<and> lowRight t = lr"
  by (erule built.cases) simp_all

lemma built_inside: "built img ul lr t \<Longrightarrow> inside img ul lr"
  by (erule built.cases) simp_all

lemma leaves_built_pixels:
  "built img ul lr t \<Longrightarrow>
   \<forall>l \<in> set (leaves t). upLeft l = lowRight l \<and> avg l = imgData img (upLeft l)"
  by (induction rule: built.induct) (auto simp: built_not_Null)

lemma leaves_built_rect:
  assumes f: "fits32 img"
  shows "built img ul lr t \<Longrightarrow> upLeft ` set (leaves t) = rect ul lr"
proof (induction rule: built.induct)
  case (pixel ul)
  then show ?case by (simp add: rect_def seg_single)
next
  case (column ul lr midX midY nw sw c)
  from column(1) have i: "fst ul \<le> fst lr" "snd ul \<le> snd lr"
      "fst lr < imgWidth img" "snd lr < imgHeight img"
    by (simp_all add: inside_def)
  have xb: "fst lr < 2 ^ 31" using f i(3) by (rule fits32_width)
  have yb: "snd lr < 2 ^ 31" using f i(4) by (rule fits32_height)
  have mx: "midX = fst ul" using column(2,4) mid_same [OF xb] by simp
  note sy = seg_split [OF i(2) column(3) yb, folded column(5)]
  show ?case
    using column.IH column(2) built_not_Null [OF column(6)] sy(1)
    by (auto simp: rect_def mx image_Un)
next
  case (row ul lr midX midY nw ne c)
  from row(1) have i: "fst ul \<le> fst lr" "snd ul \<le> snd lr"
      "fst lr < imgWidth img" "snd lr < imgHeight img"
    by (simp_all add: inside_def)
  have xb: "fst lr < 2 ^ 31" using f i(3) by (rule fits32_width)
  have yb: "snd lr < 2 ^ 31" using f i(4) by (rule fits32_height)
  have my: "midY = snd ul" using row(3,5) mid_same [OF yb] by simp
  have xne: "fst ul \<noteq> fst lr" using row(2) by simp
  note sx = seg_split [OF i(1) xne xb, folded row(4)]
  show ?case
    using row.IH row(3) built_not_Null [OF row(6)] sx(1)
    by (auto simp: rect_def my image_Un)
next
  case (quad ul lr midX midY nw ne sw se c)
  from quad(1) have i: "fst ul \<le> fst lr" "snd ul \<le> snd lr"
      "fst lr < imgWidth img" "snd lr < imgHeight img"
    by (simp_all add: inside_def)
  have xb: "fst lr < 2 ^ 31" using f i(3) by (rule fits32_width)
  have yb: "snd lr < 2 ^ 31" using f i(4) by (rule fits32_height)
  have xne: "fst ul \<noteq> fst lr" using quad(2) by simp
  note sx = seg_split [OF i(1) xne xb, folded quad(4)]
  note sy = seg_split [OF i(2) quad(3) yb, folded quad(5)]
  show ?case
    using quad.IH built_not_Null [OF quad(6)] sx(1) sy(1)
    by (auto simp: rect_def image_Un)
qed

lemma leaves_built_distinct:
  assumes f: "fits32 img"
  shows "built img ul lr t \<Longrightarrow> distinct (map upLeft (leaves t))"
proof (induction rule: built.induct)
  case (pixel ul)
  then show ?case by simp
next
  case (column ul lr midX midY nw sw c)
  from column(1) have i: "fst ul \<le> fst lr" "snd ul \<le> snd lr"
      "fst lr < imgWidth img" "snd lr < imgHeight img"
    by (simp_all add: inside_def)
  have yb: "snd lr < 2 ^ 31" using f i(4) by (rule fits32_height)
  note sy = seg_split [OF i(2) column(3) yb, folded column(5)]
  have "rect ul (midX, midY) \<inter> rect (fst ul, midY + 1) (midX, snd lr) = {}"
    using sy(2) by (auto simp: rect_def)
  then show ?case
    using column.IH built_not_Null [OF column(6)]
      leaves_built_rect [OF f column(6)] leaves_built_rect [OF f column(7)]
    by simp
next
  case (row ul lr midX midY nw ne c)
  from row(1) have i: "fst ul \<le> fst lr" "snd ul \<le> snd lr"
      "fst lr < imgWidth img" "snd lr < imgHeight img"
    by (simp_all add: inside_def)
  have xb: "fst lr < 2 ^ 31" using f i(3) by (rule fits32_width)
  have xne: "fst ul \<noteq> fst lr" using row(2) by simp
  note sx = seg_split [OF i(1) xne xb, folded row(4)]
  have "rect ul (midX, midY) \<inter> rect (midX + 1, snd ul) (fst lr, midY) = {}"
    using sx(2) by (auto simp: rect_def)
  then show ?case
    using row.IH built_not_Null [OF row(6)]
      leaves_built_rect [OF f row(6)] leaves_built_rect [OF f row(7)]
    by simp
next
  case (quad ul lr midX midY nw ne sw se c)
  from quad(1) have i: "fst ul \<le> fst lr" "snd ul \<le> snd lr"
      "fst lr < imgWidth img" "snd lr < imgHeight img"
    by (simp_all add: inside_def)
  have xb: "fst lr < 2 ^ 31" using f i(3) by (rule fits32_width)
  have yb: "snd lr < 2 ^ 31" using f i(4) by (rule fits32_height)
  have xne: "fst ul \<noteq> fst lr" using quad(2) by simp
  note sx = seg_split [OF i(1) xne xb, folded quad(4)]
  note sy = seg_split [OF i(2) quad(3) yb, folded quad(5)]
  have d: "rect ul (midX, midY) \<inter> rect (midX + 1, snd ul) (fst lr, midY) = {}"
      "rect ul (midX, midY) \<inter> rect (fst ul, midY + 1) (midX, snd lr) = {}"
      "rect ul (midX, midY) \<inter> rect (midX + 1, midY + 1) lr = {}"
      "rect (midX + 1, snd ul) (fst lr, midY) \<inter> rect (fst ul, midY + 1) (midX, snd lr) = {}"
      "rect (midX + 1, snd ul) (fst lr, midY) \<inter> rect (midX + 1, midY + 1) lr = {}"
      "rect (fst ul, midY + 1) (midX, snd lr) \<inter> rect (midX + 1, midY + 1) lr = {}"
    using sx(2) sy(2) by (auto simp: rect_def)
  show ?case
    using quad.IH built_not_Null [OF quad(6)] d
      leaves_built_rect [OF f quad(6)] leaves_built_rect [OF f quad(7)]
      leaves_built_rect [OF f quad(8)] leaves_built_rect [OF f quad(9)]
    by (simp add: Int_Un_distrib Int_Un_distrib2)
qed

lemma extent_split:
  fixes a b :: uint
  assumes "a \<le> b" "a \<noteq> b" "b < 2 ^ 31"
  shows "(unat ((a + b) div 2) - unat a + 1) + (unat b - unat ((a + b) div 2 + 1) + 1)
         = unat b - unat a + 1"
proof -
  have ab: "unat a \<le> unat b" using assms(1) by (simp add: word_le_nat_alt)
  have ne: "unat a \<noteq> unat b" using assms(2) by (simp add: word_unat_eq_iff)
  show ?thesis
    using ab ne by (simp add: unat_mid [OF assms(1,3)] mid_succ(1) [OF assms])
qed

lemma CountLeaves_length: "CountLeaves t = length (leaves t)"
  by (induction t) simp_all

lemma leaves_built_length:
  assumes f: "fits32 img"
  shows "built img ul lr t \<Longrightarrow>
     length (leaves t) =
       (unat (fst lr) - unat (fst ul) + 1) * (unat (snd lr) - unat (snd ul) + 1)"
proof (induction rule: built.induct)
  case (pixel ul)
  then show ?case by simp
next
  case (column ul lr midX midY nw sw c)
  from column(1) have i: "fst ul \<le> fst lr" "snd ul \<le> snd lr"
      "fst lr < imgWidth img" "snd lr < imgHeight img"
    by (simp_all add: inside_def)
  have xb: "fst lr < 2 ^ 31" using f i(3) by (rule fits32_width)
  have yb: "snd lr < 2 ^ 31" using f i(4) by (rule fits32_height)
  have mx: "midX = fst ul" using column(2,4) mid_same [OF xb] by simp
  note ey = extent_split [OF i(2) column(3) yb, folded column(5)]
  show ?case
    using column.IH built_not_Null [OF column(6)] column(2) ey
    by (simp add: mx)
next
  case (row ul lr midX midY nw ne c)
  from row(1) have i: "fst ul \<le> fst lr" "snd ul \<le> snd lr"
      "fst lr < imgWidth img" "snd lr < imgHeight img"
    by (simp_all add: inside_def)
  have xb: "fst lr < 2 ^ 31" using f i(3) by (rule fits32_width)
  have yb: "snd lr < 2 ^ 31" using f i(4) by (rule fits32_height)
  have my: "midY = snd ul" using row(3,5) mid_same [OF yb] by simp
  have xne: "fst ul \<noteq> fst lr" using row(2) by simp
  note ex = extent_split [OF i(1) xne xb, folded row(4)]
  show ?case
    using row.IH built_not_Null [OF row(6)] row(3) ex
    by (simp add: my)
next
  case (quad ul lr midX midY nw ne sw se c)
  from quad(1) have i: "fst ul \<le> fst lr" "snd ul \<le> snd lr"
      "fst lr < imgWidth img" "snd lr < imgHeight img"
    by (simp_all add: inside_def)
  have xb: "fst lr < 2 ^ 31" using f i(3) by (rule fits32_width)
  have yb: "snd lr < 2 ^ 31" using f i(4) by (rule fits32_height)
  have xne: "fst ul \<noteq> fst lr" using quad(2) by simp
  note ex = extent_split [OF i(1) xne xb, folded quad(4)]
  note ey = extent_split [OF i(2) quad(3) yb, folded quad(5)]
  define A1 where "A1 = unat midX - unat (fst ul) + 1"
  define A2 where "A2 = unat (fst lr) - unat (midX + 1) + 1"
  define B1 where "B1 = unat midY - unat (snd ul) + 1"
  define B2 where "B2 = unat (snd lr) - unat (midY + 1) + 1"
  have n: "length (leaves nw) = A1 * B1" "length (leaves ne) = A2 * B1"
      "length (leaves sw) = A1 * B2" "length (leaves se) = A2 * B2"
    using quad.IH by (simp_all add: A1_def A2_def B1_def B2_def)
  have "length (leaves (Node ul lr c nw ne sw se)) = A1 * B1 + A2 * B1 + A1 * B2 + A2 * B2"
    using n built_not_Null [OF quad(6)] by simp
  also have "\<dots> = (A1 + A2) * (B1 + B2)"
    by (simp add: algebra_simps)
  also have "A1 + A2 = unat (fst lr) - unat (fst ul) + 1"
    using ex by (simp add: A1_def A2_def)
  also have "B1 + B2 = unat (snd lr) - unat (snd ul) + 1"
    using ey by (simp add: B1_def B2_def)
  finally show ?case .
qed

lemma midpoint_eq:
  fixes a b :: uint
  assumes "a \<le> b" "b < 2 ^ 31"
  shows "midpoint a b = (a + b) div 2"
  by (simp add: midpoint_def flip: unat_mid [OF assms])

lemma midpoint_same: "midpoint a a = a"
  by (simp add: midpoint_def)

lemma built_splitRule:
  assumes f: "fits32 img"
  shows "built img ul lr t \<Longrightarrow> splitRule t"
proof (induction rule: built.induct)
  case (pixel ul)
  then show ?case by simp
next
  case (column ul lr midX midY nw sw c)
  from column(1) have i: "fst ul \<le> fst lr" "snd ul \<le> snd lr"
      "fst lr < imgWidth img" "snd lr < imgHeight img"
    by (simp_all add: inside_def)
  have xb: "fst lr < 2 ^ 31" using f i(3) by (rule fits32_width)
  have yb: "snd lr < 2 ^ 31" using f i(4) by (rule fits32_height)
  have mx: "midX = fst ul" using column(2,4) mid_same [OF xb] by simp
  have "ul \<noteq> lr" using column(3) by auto
  then show ?case
    using column.IH column(2) built_not_Null [OF column(6)] built_not_Null [OF column(7)]
      built_corners [OF column(6)] built_corners [OF column(7)]
    by (simp add: covers_def midpoint_same midpoint_eq [OF i(2) yb] mx column(5))
next
  case (row ul lr midX midY nw ne c)
  from row(1) have i: "fst ul \<le> fst lr" "snd ul \<le> snd lr"
      "fst lr < imgWidth img" "snd lr < imgHeight img"
    by (simp_all add: inside_def)
  have xb: "fst lr < 2 ^ 31" using f i(3) by (rule fits32_width)
  have yb: "snd lr < 2 ^ 31" using f i(4) by (rule fits32_height)
  have my: "midY = snd ul" using row(3,5) mid_same [OF yb] by simp
  have "ul \<noteq> lr" "fst ul \<noteq> fst lr" using row(2) by auto
  then show ?case
    using row.IH row(3) built_not_Null [OF row(6)] built_not_Null [OF row(7)]
      built_corners [OF row(6)] built_corners [OF row(7)]
    by (simp add: covers_def midpoint_same midpoint_eq [OF i(1) xb] my row(4))
next
  case (quad ul lr midX midY nw ne sw se c)
  from quad(1) have i: "fst ul \<le> fst lr" "snd ul \<le> snd lr"
      "fst lr < imgWidth img" "snd lr < imgHeight img"
    by (simp_all add: inside_def)
  have xb: "fst lr < 2 ^ 31" using f i(3) by (rule fits32_width)
  have yb: "snd lr < 2 ^ 31" using f i(4) by (rule fits32_height)
  have "ul \<noteq> lr" "fst ul \<noteq> fst lr" using quad(2) by auto
  then show ?case
    using quad.IH quad(3) built_not_Null [OF quad(6)] built_not_Null [OF quad(7)]
      built_not_Null [OF quad(8)] built_not_Null [OF quad(9)]
      built_corners [OF quad(6)] built_corners [OF quad(7)]
      built_corners [OF quad(8)] built_corners [OF quad(9)]
    by (simp add: covers_def midpoint_eq [OF i(1) xb] midpoint_eq [OF i(2) yb] quad(4,5))
qed

lemma wfNode_built: "built img ul lr t \<Longrightarrow> wfNode (imgWidth img) (imgHeight img) t"
  by (induction rule: built.induct) (simp_all add: inside_def)

section \<open>The tree of a whole raster\<close>

lemma unat_pred:
  fixes w :: uint
  assumes "1 \<le> w"
  shows "unat (w - 1) = unat w - 1" and "w - 1 < w"
proof -
  have "w \<noteq> 0" using assms by auto
  then show u: "unat (w - 1) = unat w - 1" by (rule unat_minus_one)
  have "1 \<le> unat w" using assms by (simp add: word_le_nat_alt)
  then show "w - 1 < w" by (simp add: word_less_nat_alt u)
qed

lemma le_pred_iff:
  fixes w x :: uint
  assumes "1 \<le> w"
  shows "x \<le> w - 1 \<longleftrightarrow> x < w"
proof -
  have "1 \<le> unat w" using assms by (simp add: word_le_nat_alt)
  then show ?thesis
    by (auto simp: word_le_nat_alt word_less_nat_alt unat_pred(1) [OF assms])
qed

lemma inside_whole:
  assumes "fits32 img"
  shows "inside img (0, 0) (imgWidth img - 1, imgHeight img - 1)"
  using assms by (simp add: inside_def fits32_def unat_pred(2))

lemma QTree_built:
  assumes f: "fits32 img"
  obtains nd where
    "QTree img = Some \<lparr>root = nd, height = imgHeight img, width = imgWidth img\<rparr>"
    and "built img (0, 0) (imgWidth img - 1, imgHeight img - 1) nd"
proof -
  obtain nd where "BuildNode img (0, 0) (imgWidth img - 1, imgHeight img - 1) = Some nd"
    and "built img (0, 0) (imgWidth img - 1, imgHeight img - 1) nd"
    using BuildNode_built [OF f inside_whole [OF f]] by blast
  then show thesis
    by (intro that [of nd]) (simp_all add: QTree_def Let_def)
qed

lemma rect_whole:
  assumes "fits32 img"
  shows "rect (0, 0) (imgWidth img - 1, imgHeight img - 1) =
         {(x, y). x < imgWidth img \<and> y < imgHeight img}"
  using assms by (auto simp: rect_def seg_def fits32_def le_pred_iff)

text \<open>
  C6: for a raster with at least one column and one row, whose dimensions fit the
  32-bit arithmetic of the code (\<open>fits32\<close>), the constructor returns a tree that
  follows the split rule at every node (\<open>splitRule\<close>); every leaf is a single pixel,
  no two leaves lie on the same pixel, the leaves cover exactly the pixels of the
  raster, and there are width times height of them.
\<close>

theorem Build_tiles_raster:
  assumes "fits32 img"
  shows "\<exists>t. QTree img = Some t \<and>
    width t = imgWidth img \<and> height t = imgHeight img \<and>
    splitRule (root t) \<and>
    (\<forall>l \<in> set (leaves (root t)). upLeft l = lowRight l) \<and>
    distinct (map upLeft (leaves (root t))) \<and>
    upLeft ` set (leaves (root t)) = {(x, y). x < imgWidth img \<and> y < imgHeight img} \<and>
    CountLeaves (root t) = unat (imgWidth img) * unat (imgHeight img)"
proof -
  from assms obtain nd where
    q: "QTree img = Some \<lparr>root = nd, height = imgHeight img, width = imgWidth img\<rparr>"
    and b: "built img (0, 0) (imgWidth img - 1, imgHeight img - 1) nd"
    by (rule QTree_built)
  have w: "1 \<le> imgWidth img" and h: "1 \<le> imgHeight img"
    using assms by (simp_all add: fits32_def)
  have "1 \<le> unat (imgWidth img)" "1 \<le> unat (imgHeight img)"
    using w h by (simp_all add: word_le_nat_alt)
  then have n: "CountLeaves nd = unat (imgWidth img) * unat (imgHeight img)"
    using leaves_built_length [OF assms b]
    by (simp add: CountLeaves_length unat_pred(1) [OF w] unat_pred(1) [OF h])
  show ?thesis
    using q built_splitRule [OF assms b] leaves_built_pixels [OF b]
      leaves_built_distinct [OF assms b] leaves_built_rect [OF assms b] n
    by (simp add: rect_whole [OF assms])
qed


text \<open>The theorem at the raster of the concrete scenario, which has four leaves.\<close>

theorem Build_tiles_raster_witness:
  "fits32 img2x2 \<and>
   (\<exists>t. QTree img2x2 = Some t \<and> splitRule (root t) \<and>
      distinct (map upLeft (leaves (root t))) \<and> CountLeaves (root t) = 4)"
proof -
  have f: "fits32 img2x2" by (simp add: fits32_def img2x2_def)
  show ?thesis using f Build_tiles_raster [OF f] by (auto simp: img2x2_def)
qed

section \<open>Rendering at scale one\<close>

text \<open>
  At scale one \<open>draw\<close> is a single assignment, and \<open>renderNode\<close> overwrites the corner
  pixels of the leaves with their colours.
\<close>

lemma draw_scale1: "draw img sx sy 1 c = setPixel img sx sy c"
proof -
  have col: "drawColumn im px sy 1 c 0 = setPixel im px sy c" for im px
    by (subst drawColumn.simps, simp, subst drawColumn.simps, simp)
  show ?thesis
    unfolding draw_def
    by (subst drawRows.simps, simp add: col, subst drawRows.simps, simp)
qed

lemma paint_size [simp]:
  "imgWidth (paint cv S F) = imgWidth cv" "imgHeight (paint cv S F) = imgHeight cv"
  by (simp_all add: paint_def)

lemma paint_empty [simp]: "paint cv {} F = cv"
  by (simp add: paint_def)

lemma paint_paint: "paint (paint cv S F) T F = paint cv (S \<union> T) F"
  by (auto simp: paint_def fun_eq_iff)

lemma paint_data: "imgData (paint cv S F) p = (if p \<in> S then F p else imgData cv p)"
  by (simp add: paint_def)

lemma setPixel_paint:
  assumes "fst p < imgWidth cv" "snd p < imgHeight cv"
  shows "setPixel cv (fst p) (snd p) (F p) = Some (paint cv {p} F)"
  using assms by (auto simp: setPixel_def paint_def fun_eq_iff)

lemma renderNode_scale1:
  assumes "\<forall>l \<in> set (leaves t).
     fst (upLeft l) < imgWidth cv \<and> snd (upLeft l) < imgHeight cv \<and> avg l = F (upLeft l)"
  shows "renderNode t cv 1 = Some (paint cv (upLeft ` set (leaves t)) F)"
  using assms
proof (induction t arbitrary: cv)
  case Null
  then show ?case by simp
next
  case (Node ul lr c nw ne sw se)
  show ?case
  proof (cases "nw = Null \<and> ne = Null \<and> sw = Null \<and> se = Null")
    case True
    then have "fst ul < imgWidth cv" "snd ul < imgHeight cv" "c = F ul"
      using Node.prems by simp_all
    then show ?thesis
      using True setPixel_paint [of ul cv F] by (simp add: draw_scale1)
  next
    case False
    define S1 where "S1 = upLeft ` set (leaves nw)"
    define S2 where "S2 = upLeft ` set (leaves ne)"
    define S3 where "S3 = upLeft ` set (leaves sw)"
    define S4 where "S4 = upLeft ` set (leaves se)"
    have 1: "renderNode nw cv 1 = Some (paint cv S1 F)"
      unfolding S1_def using Node.prems False by (intro Node.IH(1)) simp
    have 2: "renderNode ne (paint cv S1 F) 1 = Some (paint (paint cv S1 F) S2 F)"
      unfolding S2_def using Node.prems False by (intro Node.IH(2)) simp
    have 3: "renderNode sw (paint cv (S1 \<union> S2) F) 1 = Some (paint (paint cv (S1 \<union> S2) F) S3 F)"
      unfolding S3_def using Node.prems False by (intro Node.IH(3)) simp
    have 4: "renderNode se (paint cv (S1 \<union> S2 \<union> S3) F) 1 =
        Some (paint (paint cv (S1 \<union> S2 \<union> S3) F) S4 F)"
      unfolding S4_def using Node.prems False by (intro Node.IH(4)) simp
    have "renderNode (Node ul lr c nw ne sw se) cv 1 = Some (paint cv (S1 \<union> S2 \<union> S3 \<union> S4) F)"
      using False by (auto simp: 1 2 3 4 paint_paint)
    moreover have "upLeft ` set (leaves (Node ul lr c nw ne sw se)) = S1 \<union> S2 \<union> S3 \<union> S4"
      using False by (auto simp: S1_def S2_def S3_def S4_def image_Un Un_assoc)
    ultimately show ?thesis by simp
  qed
qed

lemma in_whole:
  assumes "p \<in> {(x, y). x < (w::uint) \<and> y < (h::uint)}"
  shows "fst p < w" "snd p < h"
  using assms by (cases p, simp)+

lemma Render_built:
  assumes f: "fits32 img"
    and b: "built img (0, 0) (imgWidth img - 1, imgHeight img - 1) nd"
  shows "Render blank \<lparr>root = nd, height = imgHeight img, width = imgWidth img\<rparr> 1 =
      Some (paint (newPNG blank (imgWidth img) (imgHeight img))
         {(x, y). x < imgWidth img \<and> y < imgHeight img} (imgData img))"
proof -
  let ?cv = "newPNG blank (imgWidth img) (imgHeight img)"
  let ?S = "{(x, y). x < imgWidth img \<and> y < imgHeight img}"
  have S: "upLeft ` set (leaves nd) = ?S"
    using leaves_built_rect [OF f b] by (simp only: rect_whole [OF f])
  have cv: "imgWidth ?cv = imgWidth img" "imgHeight ?cv = imgHeight img"
    by (simp_all add: newPNG_def)
  have "\<forall>l \<in> set (leaves nd). fst (upLeft l) < imgWidth ?cv \<and> snd (upLeft l) < imgHeight ?cv \<and>
      avg l = imgData img (upLeft l)"
  proof
    fix l assume l: "l \<in> set (leaves nd)"
    then have "upLeft l \<in> upLeft ` set (leaves nd)" by (rule imageI)
    then have "upLeft l \<in> ?S" by (simp only: S)
    then have "fst (upLeft l) < imgWidth img" "snd (upLeft l) < imgHeight img"
      by (rule in_whole)+
    moreover have "upLeft l = lowRight l \<and> avg l = imgData img (upLeft l)"
      using leaves_built_pixels [OF b] l by (rule bspec)
    then have "avg l = imgData img (upLeft l)" by (rule conjunct2)
    ultimately show "fst (upLeft l) < imgWidth ?cv \<and> snd (upLeft l) < imgHeight ?cv \<and>
      avg l = imgData img (upLeft l)"
      by (simp only: cv simp_thms)
  qed
  then have "renderNode nd ?cv 1 = Some (paint ?cv (upLeft ` set (leaves nd)) (imgData img))"
    by (rule renderNode_scale1)
  then have "renderNode nd ?cv 1 = Some (paint ?cv ?S (imgData img))"
    by (simp only: S)
  then show ?thesis
    by (simp add: Render_def)
qed

text \<open>
  C3: on the tree built from a raster, \<open>Render(1)\<close> returns a raster of the same
  width and height whose pixel at every coordinate of the raster is the source pixel.
\<close>

theorem Render_identity:
  assumes "fits32 img"
  shows "\<exists>t out. QTree img = Some t \<and> Render blank t 1 = Some out \<and>
    imgWidth out = imgWidth img \<and> imgHeight out = imgHeight img \<and>
    (\<forall>x y. x < imgWidth img \<and> y < imgHeight img \<longrightarrow> imgData out (x, y) = imgData img (x, y))"
proof -
  from assms obtain nd where
    q: "QTree img = Some \<lparr>root = nd, height = imgHeight img, width = imgWidth img\<rparr>"
    and b: "built img (0, 0) (imgWidth img - 1, imgHeight img - 1) nd"
    by (rule QTree_built)
  show ?thesis
    by (intro exI conjI, rule q, rule Render_built [OF assms b])
       (simp_all add: paint_data newPNG_def)
qed

text \<open>The theorem at the raster of the concrete scenario, rendered on white.\<close>

theorem Render_identity_witness:
  "fits32 img2x2 \<and>
   (\<exists>t out. QTree img2x2 = Some t \<and> Render (RGBAPixel 255 255 255 1) t 1 = Some out \<and>
      imgWidth out = 2 \<and> imgHeight out = 2 \<and>
      imgData out (0, 0) = RGBAPixel 255 0 0 1 \<and> imgData out (1, 1) = RGBAPixel 255 255 0 1)"
proof -
  have f: "fits32 img2x2" by (simp add: fits32_def img2x2_def)
  from Render_identity [OF f, of "RGBAPixel 255 255 255 1"]
  obtain t out where "QTree img2x2 = Some t" "Render (RGBAPixel 255 255 255 1) t 1 = Some out"
     "imgWidth out = imgWidth img2x2" "imgHeight out = imgHeight img2x2"
     "\<forall>x y. x < imgWidth img2x2 \<and> y < imgHeight img2x2 \<longrightarrow> imgData out (x, y) = imgData img2x2 (x, y)"
    by blast
  moreover from this(5) have "imgData out (0, 0) = imgData img2x2 (0, 0)"
      "imgData out (1, 1) = imgData img2x2 (1, 1)"
    by (simp_all add: img2x2_def)
  ultimately show ?thesis using f by (auto simp: img2x2_def)
qed

section \<open>Rendering a pruned tree\<close>

lemma unat_ucast_channel: "unat (ucast (r :: 8 word) :: uint) = unat r"
proof -
  have "unat r < 2 ^ 8" using unsigned_less [of r] by simp
  then have "unat r < 2 ^ 32" by simp
  then show ?thesis by (simp add: unsigned_ucast_eq take_bit_nat_eq_self)
qed

lemma ucast_channel_back: "(ucast (ucast (r :: 8 word) :: uint) :: 8 word) = r"
  by (rule ucast_up_ucast_id) (simp add: is_up)

lemma avg_two_equal:
  fixes r :: "8 word"
  shows "(ucast ((ucast r + ucast r) div (2 :: uint)) :: 8 word) = r"
proof -
  note u = unat_ucast_channel [of r]
  have "unat r < 2 ^ 8" using unsigned_less [of r] by simp
  then have "unat (ucast r :: uint) + unat (ucast r :: uint) < 2 ^ LENGTH(32)"
    by (simp add: u)
  then have "unat (ucast r + ucast r :: uint) = unat (ucast r :: uint) + unat (ucast r :: uint)"
    by (simp only: unat_add_lem)
  then have "unat ((ucast r + ucast r) div (2 :: uint)) = unat (ucast r :: uint)"
    by (simp add: unat_div)
  then have "(ucast r + ucast r) div (2 :: uint) = ucast r"
    by (simp only: word_unat_eq_iff)
  then show ?thesis by (simp only: ucast_channel_back)
qed

lemma avg_two_equal_mult:
  fixes r :: "8 word"
  shows "(ucast (2 * ucast r div (2 :: uint)) :: 8 word) = r"
  using avg_two_equal [of r] by (simp only: mult_2)

lemma QTree_uniform2x1:
  "QTree (uniform2x1 c) =
     Some \<lparr>root = Node (0, 0) (1, 0) c (Node (0, 0) (0, 0) c Null Null Null Null)
                   (Node (1, 0) (1, 0) c Null Null Null Null) Null Null,
           height = 1, width = 2\<rparr>"
proof -
  obtain r g b a where c: "c = RGBAPixel r g b a" by (cases c)
  show ?thesis
    by (simp add: c QTree_def uniform2x1_def BuildNode.simps getPixel_def nodeAvg_def avg_two_equal_mult)
qed


lemma Prune_uniform2x1:
  "Prune distanceTo (distanceTo c c) (the (QTree (uniform2x1 c))) =
     \<lparr>root = Node (0, 0) (1, 0) c Null Null Null Null, height = 1, width = 2\<rparr>"
  by (simp add: QTree_uniform2x1 Prune_def)

text \<open>
  C1 (the code departs from the claim): on the raster of two equal pixels of colour
  \<open>c\<close>, pruning at the tolerance \<open>distanceTo c c\<close> leaves one leaf with the rectangle
  \<open>[(0,0),(1,0)]\<close>; \<open>Render(1)\<close> then writes the colour to the pixel \<open>(0,0)\<close> only
  and the pixel \<open>(1,0)\<close> of the leaf's rectangle keeps the default pixel of the
  new raster.
\<close>

theorem Render_pruned_leaf_fills_one_block:
  "root (Prune distanceTo (distanceTo c c) (the (QTree (uniform2x1 c)))) =
     Node (0, 0) (1, 0) c Null Null Null Null \<and>
   Render blank (Prune distanceTo (distanceTo c c) (the (QTree (uniform2x1 c)))) 1 =
     Some \<lparr>imgWidth = 2, imgHeight = 1, imgData = (\<lambda>p. blank)((0, 0) := c)\<rparr>"
  by (simp add: Prune_uniform2x1 Render_def newPNG_def draw_scale1 setPixel_def)

text \<open>
  C2 (the code departs from the claim): on the same raster the render of the unpruned
  tree has the colour \<open>c\<close> at the pixel \<open>(1,0)\<close>, the render after pruning at the
  tolerance \<open>distanceTo c c\<close> has the default pixel there, whatever its distance
  from \<open>c\<close>.
\<close>

theorem Prune_then_Render_leaves_blank_pixel:
  "(case Render blank (the (QTree (uniform2x1 c))) 1 of
      None \<Rightarrow> False | Some out \<Rightarrow> imgData out (1, 0) = c) \<and>
   (case Render blank (Prune distanceTo (distanceTo c c) (the (QTree (uniform2x1 c)))) 1 of
      None \<Rightarrow> False | Some out \<Rightarrow> imgData out (1, 0) = blank)"
  by (simp add: QTree_uniform2x1 Prune_def Render_def newPNG_def draw_scale1 setPixel_def)

section \<open>Flipping twice\<close>

text \<open>
  Every reachable tree keeps its rectangles inside its width and height; there the
  mirrored corners are in order, so \<open>flipHorizontal\<close> never swaps them and is undone by
  a second flip.
\<close>

lemma mirror_coords:
  fixes w a b :: uint
  assumes "a \<le> b" "b < w"
  shows "w - 1 - b \<le> w - 1 - a" and "w - 1 - a < w" and "\<not> w - 1 - b > w - 1 - a"
proof -
  have "unat b < unat w" using assms(2) by (simp add: word_less_nat_alt)
  then have "unat (1 :: uint) \<le> unat w" by simp
  then have w: "1 \<le> w" by (simp only: word_le_nat_alt)
  have ab: "unat a \<le> unat b" using assms(1) by (simp add: word_le_nat_alt)
  have bw: "unat b < unat w" using assms(2) by (simp add: word_less_nat_alt)
  have b1: "b \<le> w - 1" using assms(2) by (simp add: le_pred_iff [OF w])
  have a1: "a \<le> w - 1" using assms(1) b1 by (rule order_trans)
  have ub: "unat (w - 1 - b) = unat w - 1 - unat b"
    by (simp add: unat_sub [OF b1] unat_pred(1) [OF w])
  have ua: "unat (w - 1 - a) = unat w - 1 - unat a"
    by (simp add: unat_sub [OF a1] unat_pred(1) [OF w])
  show le: "w - 1 - b \<le> w - 1 - a"
    using ab bw by (simp add: word_le_nat_alt ua ub)
  show "w - 1 - a < w"
    using ab bw by (simp add: word_less_nat_alt ua)
  show "\<not> w - 1 - b > w - 1 - a"
    using le by (simp add: not_less)
qed

lemma wfNode_flipHorizontal: "wfNode w h n \<Longrightarrow> wfNode w h (flipHorizontal w n)"
proof (induction n)
  case Null
  then show ?case by simp
next
  case (Node ul lr c nw ne sw se)
  then have x: "fst ul \<le> fst lr" "fst lr < w" by simp_all
  note m = mirror_coords [OF x]
  show ?case using Node m by simp
qed

lemma flipHorizontal_twice: "wfNode w h n \<Longrightarrow> flipHorizontal w (flipHorizontal w n) = n"
proof (induction n)
  case Null
  then show ?case by simp
next
  case (Node ul lr c nw ne sw se)
  then have x: "fst ul \<le> fst lr" "fst lr < w" by simp_all
  note m = mirror_coords [OF x]
  have "\<not> fst lr < fst ul" using x(1) by (simp add: not_less)
  then show ?case using Node m by simp
qed

lemma wfNode_rotateCCW: "wfNode w h n \<Longrightarrow> wfNode h w (rotateCCW w n)"
proof (induction n)
  case Null
  then show ?case by simp
next
  case (Node ul lr c nw ne sw se)
  then have x: "fst ul \<le> fst lr" "fst lr < w" by simp_all
  note m = mirror_coords(1,2) [OF x]
  have e: "w - fst lr - 1 = w - 1 - fst lr" "w - fst ul - 1 = w - 1 - fst ul" by simp_all
  show ?case using Node m by (simp add: e)
qed

lemma wfNode_clearSt: "wfNode w h n \<Longrightarrow> wfNode w h (clearSt n)"
  by (cases n) simp_all

lemma wfNode_pruneSt: "wfNode w h n \<Longrightarrow> wfNode w h (pruneSt d n tol)"
  by (induction n) simp_all

lemma reachable_wfNode: "reachable t \<Longrightarrow> wfNode (width t) (height t) (root t)"
proof (induction rule: reachable.induct)
  case (build img t)
  from build(1) obtain nd where
    q: "QTree img = Some \<lparr>root = nd, height = imgHeight img, width = imgWidth img\<rparr>"
    and b: "built img (0, 0) (imgWidth img - 1, imgHeight img - 1) nd"
    by (rule QTree_built)
  from build(2) q have "t = \<lparr>root = nd, height = imgHeight img, width = imgWidth img\<rparr>"
    by simp
  then show ?case using wfNode_built [OF b] by simp
next
  case (prune t distanceTo tolerance)
  then show ?case by (simp add: Prune_def wfNode_pruneSt)
next
  case (flip t)
  then show ?case by (simp add: FlipHorizontal_def wfNode_flipHorizontal)
next
  case (rotate t)
  then show ?case by (simp add: RotateCCW_def Let_def wfNode_rotateCCW)
qed

text \<open>
  C9: for every tree obtained from a built tree by pruning, flipping and rotating in
  any order (\<open>reachable\<close>), two calls of \<open>FlipHorizontal\<close> give back the tree itself,
  so that it renders, at every scale, as before the two flips.
\<close>

theorem FlipHorizontal_involution:
  assumes "reachable t"
  shows "FlipHorizontal (FlipHorizontal t) = t \<and>
         Render blank (FlipHorizontal (FlipHorizontal t)) scale = Render blank t scale"
proof -
  have "wfNode (width t) (height t) (root t)" using assms by (rule reachable_wfNode)
  then have "flipHorizontal (width t) (flipHorizontal (width t) (root t)) = root t"
    by (rule flipHorizontal_twice)
  then have "FlipHorizontal (FlipHorizontal t) = t"
    by (simp add: FlipHorizontal_def)
  then show ?thesis by simp
qed

text \<open>
  The trees of the sample rasters. Pruning the tree of \<open>img3x1\<close> with \<open>redDistance\<close> and
  tolerance 1 collapses the left child of the root, whose leaves differ from its
  average by at most 1 in the red channel, and keeps the root, whose third leaf
  differs from its average by 2.
\<close>

lemma QTree_img2x2:
  "QTree img2x2 = Some \<lparr>root =
     Node (0, 0) (1, 1) (RGBAPixel 127 127 63 1)
       (Node (0, 0) (0, 0) (RGBAPixel 255 0 0 1) Null Null Null Null)
       (Node (1, 0) (1, 0) (RGBAPixel 0 255 0 1) Null Null Null Null)
       (Node (0, 1) (0, 1) (RGBAPixel 0 0 255 1) Null Null Null Null)
       (Node (1, 1) (1, 1) (RGBAPixel 255 255 0 1) Null Null Null Null),
     height = 2, width = 2\<rparr>"
  by (simp add: QTree_def img2x2_def BuildNode.simps getPixel_def nodeAvg_def)

lemma QTree_img3x1:
  "QTree img3x1 = Some \<lparr>root =
     Node (0, 0) (2, 0) (RGBAPixel 0 0 0 1)
       (Node (0, 0) (1, 0) (RGBAPixel 0 0 0 1)
          (Node (0, 0) (0, 0) (RGBAPixel 1 0 0 1) Null Null Null Null)
          (Node (1, 0) (1, 0) (RGBAPixel 0 0 0 1) Null Null Null Null) Null Null)
       (Node (2, 0) (2, 0) (RGBAPixel 2 0 0 1) Null Null Null Null) Null Null,
     height = 1, width = 3\<rparr>"
  by (simp add: QTree_def img3x1_def BuildNode.simps getPixel_def nodeAvg_def)

lemma pruned3x1:
  "pruned3x1 = \<lparr>root =
     Node (0, 0) (2, 0) (RGBAPixel 0 0 0 1)
       (Node (0, 0) (1, 0) (RGBAPixel 0 0 0 1) Null Null Null Null)
       (Node (2, 0) (2, 0) (RGBAPixel 2 0 0 1) Null Null Null Null) Null Null,
     height = 1, width = 3\<rparr>"
  by (simp add: pruned3x1_def Prune_def QTree_img3x1 redDistance_def)

lemma reachable_pruned3x1: "reachable pruned3x1"
proof -
  have "fits32 img3x1" by (simp add: fits32_def img3x1_def)
  moreover have "QTree img3x1 = Some (the (QTree img3x1))" by (simp add: QTree_img3x1)
  ultimately have "reachable (the (QTree img3x1))" by (rule reachable.build)
  then show ?thesis unfolding pruned3x1_def by (rule reachable.prune)
qed

lemma reachable_rotated2x2: "reachable rotated2x2"
proof -
  have "fits32 img2x2" by (simp add: fits32_def img2x2_def)
  moreover have "QTree img2x2 = Some (the (QTree img2x2))" by (simp add: QTree_img2x2)
  ultimately have "reachable (the (QTree img2x2))" by (rule reachable.build)
  then show ?thesis unfolding rotated2x2_def by (rule reachable.rotate)
qed

text \<open>
  The theorem at two trees with children: the pruned tree of the raster of three
  pixels, whose root keeps a collapsed leaf of two pixels and a leaf of one pixel, and
  the rotated tree of the concrete scenario. On each of them one flip swaps children
  and mirrors corners, so that the flipped tree differs from the tree, and the second
  flip restores it.
\<close>

theorem FlipHorizontal_involution_witness:
  "reachable pruned3x1 \<and>
   FlipHorizontal pruned3x1 \<noteq> pruned3x1 \<and>
   FlipHorizontal (FlipHorizontal pruned3x1) = pruned3x1 \<and>
   Render (RGBAPixel 255 255 255 1) (FlipHorizontal (FlipHorizontal pruned3x1)) 1 =
     Render (RGBAPixel 255 255 255 1) pruned3x1 1 \<and>
   reachable rotated2x2 \<and>
   FlipHorizontal rotated2x2 \<noteq> rotated2x2 \<and>
   FlipHorizontal (FlipHorizontal rotated2x2) = rotated2x2 \<and>
   Render (RGBAPixel 255 255 255 1) (FlipHorizontal (FlipHorizontal rotated2x2)) 1 =
     Render (RGBAPixel 255 255 255 1) rotated2x2 1"
proof -
  note a = FlipHorizontal_involution [OF reachable_pruned3x1, of "RGBAPixel 255 255 255 1" 1]
  note b = FlipHorizontal_involution [OF reachable_rotated2x2, of "RGBAPixel 255 255 255 1" 1]
  have 1: "FlipHorizontal pruned3x1 \<noteq> pruned3x1"
    by (simp add: pruned3x1 FlipHorizontal_def)
  have 2: "FlipHorizontal rotated2x2 \<noteq> rotated2x2"
    by (simp add: rotated2x2_def QTree_img2x2 RotateCCW_def FlipHorizontal_def)
  show ?thesis
    by (intro conjI reachable_pruned3x1 reachable_rotated2x2 1 2
        a [THEN conjunct1] a [THEN conjunct2] b [THEN conjunct1] b [THEN conjunct2])
qed

section \<open>Rotating\<close>

lemma rotateCCW_four:
  "rotateCCW h (rotateCCW w (rotateCCW h (rotateCCW w n))) = n"
  by (induction n) (simp_all add: Let_def)

lemma RotateCCW_four: "RotateCCW (RotateCCW (RotateCCW (RotateCCW t))) = t"
  by (simp add: RotateCCW_def Let_def rotateCCW_four)

lemma leaves_are_leaves:
  "l \<in> set (leaves n) \<Longrightarrow> \<exists>ul lr c. l = Node ul lr c Null Null Null Null"
  by (induction n) (auto split: if_splits)

lemma leaves_rotateCCW: "set (leaves (rotateCCW h n)) = rotateCCW h ` set (leaves n)"
  by (induction n) (auto simp: Let_def rotateCCW_Null_iff image_Un)

lemma leaves_flipHorizontal: "set (leaves (flipHorizontal w n)) = flipHorizontal w ` set (leaves n)"
  by (induction n) (auto simp: Let_def flipHorizontal_Null_iff image_Un split: prod.splits)

lemma pixelLeaves_rotateCCW:
  assumes "pixelLeaves F w h n"
  shows "pixelLeaves (\<lambda>p. F (w - 1 - snd p, fst p)) h w (rotateCCW w n)"
  unfolding pixelLeaves_def
proof
  fix l' assume "l' \<in> set (leaves (rotateCCW w n))"
  then obtain l where l: "l \<in> set (leaves n)" and l': "l' = rotateCCW w l"
    by (auto simp: leaves_rotateCCW)
  from l obtain ul lr c where n: "l = Node ul lr c Null Null Null Null"
    using leaves_are_leaves by blast
  from assms l n have p: "ul = lr" "fst ul < w" "snd ul < h" "c = F ul"
    by (auto simp: pixelLeaves_def)
  have "fst ul \<le> fst ul" by simp
  then have lt: "w - 1 - fst ul < w" using p(2) by (rule mirror_coords(2))
  have e: "w - fst ul - 1 = w - 1 - fst ul" by simp
  have "w - fst ul - 1 < w" unfolding e by (rule lt)
  moreover have "w - 1 - (w - fst ul - 1) = fst ul" by simp
  ultimately show "upLeft l' = lowRight l' \<and> fst (upLeft l') < h \<and> snd (upLeft l') < w \<and>
      avg l' = F (w - 1 - snd (upLeft l'), fst (upLeft l'))"
    using p by (simp add: l' n)
qed

lemma pixelLeaves_flipHorizontal:
  assumes "pixelLeaves F w h n"
  shows "pixelLeaves (\<lambda>p. F (w - 1 - fst p, snd p)) w h (flipHorizontal w n)"
  unfolding pixelLeaves_def
proof
  fix l' assume "l' \<in> set (leaves (flipHorizontal w n))"
  then obtain l where l: "l \<in> set (leaves n)" and l': "l' = flipHorizontal w l"
    by (auto simp: leaves_flipHorizontal)
  from l obtain ul lr c where n: "l = Node ul lr c Null Null Null Null"
    using leaves_are_leaves by blast
  from assms l n have p: "ul = lr" "fst ul < w" "snd ul < h" "c = F ul"
    by (auto simp: pixelLeaves_def)
  have "fst ul \<le> fst ul" by simp
  then have "w - 1 - fst ul < w" using p(2) by (rule mirror_coords(2))
  moreover have "w - 1 - (w - 1 - fst ul) = fst ul" by simp
  ultimately show "upLeft l' = lowRight l' \<and> fst (upLeft l') < w \<and> snd (upLeft l') < h \<and>
      avg l' = F (w - 1 - fst (upLeft l'), snd (upLeft l'))"
    using p by (simp add: l' n Let_def)
qed

lemma pixelLeaves_built:
  assumes f: "fits32 img" and b: "built img (0, 0) (imgWidth img - 1, imgHeight img - 1) nd"
  shows "pixelLeaves (imgData img) (imgWidth img) (imgHeight img) nd"
  unfolding pixelLeaves_def
proof
  fix l assume l: "l \<in> set (leaves nd)"
  then have "upLeft l \<in> upLeft ` set (leaves nd)" by (rule imageI)
  then have "upLeft l \<in> {(x, y). x < imgWidth img \<and> y < imgHeight img}"
    by (simp only: leaves_built_rect [OF f b] rect_whole [OF f])
  then have "fst (upLeft l) < imgWidth img" "snd (upLeft l) < imgHeight img"
    by (rule in_whole)+
  moreover have "upLeft l = lowRight l \<and> avg l = imgData img (upLeft l)"
    using leaves_built_pixels [OF b] l by (rule bspec)
  ultimately show "upLeft l = lowRight l \<and> fst (upLeft l) < imgWidth img \<and>
      snd (upLeft l) < imgHeight img \<and> avg l = imgData img (upLeft l)"
    by simp
qed

lemma unpruned_pixelLeaves:
  "unpruned t \<Longrightarrow> \<exists>F. pixelLeaves F (width t) (height t) (root t)"
proof (induction rule: unpruned.induct)
  case (build img t)
  from build(1) obtain nd where
    q: "QTree img = Some \<lparr>root = nd, height = imgHeight img, width = imgWidth img\<rparr>"
    and b: "built img (0, 0) (imgWidth img - 1, imgHeight img - 1) nd"
    by (rule QTree_built)
  from build(2) q have "t = \<lparr>root = nd, height = imgHeight img, width = imgWidth img\<rparr>"
    by simp
  then show ?case using pixelLeaves_built [OF build(1) b] by auto
next
  case (flip t)
  then obtain F where "pixelLeaves F (width t) (height t) (root t)" by blast
  then have "pixelLeaves (\<lambda>p. F (width t - 1 - fst p, snd p)) (width t) (height t)
      (flipHorizontal (width t) (root t))"
    by (rule pixelLeaves_flipHorizontal)
  then show ?case by (auto simp: FlipHorizontal_def)
next
  case (rotate t)
  then obtain F where "pixelLeaves F (width t) (height t) (root t)" by blast
  then have "pixelLeaves (\<lambda>p. F (width t - 1 - snd p, fst p)) (height t) (width t)
      (rotateCCW (width t) (root t))"
    by (rule pixelLeaves_rotateCCW)
  then show ?case by (auto simp: RotateCCW_def Let_def)
qed

lemma Render_pixelLeaves:
  assumes "pixelLeaves F (width t) (height t) (root t)"
  shows "Render blank t 1 =
     Some (paint (newPNG blank (width t) (height t)) (upLeft ` set (leaves (root t))) F)"
proof -
  let ?cv = "newPNG blank (width t) (height t)"
  have "\<forall>l \<in> set (leaves (root t)).
      fst (upLeft l) < imgWidth ?cv \<and> snd (upLeft l) < imgHeight ?cv \<and> avg l = F (upLeft l)"
    using assms by (auto simp: pixelLeaves_def newPNG_def)
  then have "renderNode (root t) ?cv 1 = Some (paint ?cv (upLeft ` set (leaves (root t))) F)"
    by (rule renderNode_scale1)
  then show ?thesis by (simp add: Render_def)
qed

lemma upLeft_rotateCCW:
  assumes "pixelLeaves F w h n"
  shows "(x, y) \<in> upLeft ` set (leaves (rotateCCW w n)) \<longleftrightarrow>
         (w - 1 - y, x) \<in> upLeft ` set (leaves n)"
proof
  assume "(x, y) \<in> upLeft ` set (leaves (rotateCCW w n))"
  then obtain l where l: "l \<in> set (leaves n)" and e: "(x, y) = upLeft (rotateCCW w l)"
    by (auto simp: leaves_rotateCCW)
  from l obtain ul lr c where n: "l = Node ul lr c Null Null Null Null"
    using leaves_are_leaves by blast
  from assms l n have p: "ul = lr" by (auto simp: pixelLeaves_def)
  from e n p have "x = snd ul" "y = w - fst ul - 1" by simp_all
  then have "(w - 1 - y, x) = ul" by (simp add: prod_eq_iff)
  then show "(w - 1 - y, x) \<in> upLeft ` set (leaves n)"
    using l n by force
next
  assume "(w - 1 - y, x) \<in> upLeft ` set (leaves n)"
  then obtain l where l: "l \<in> set (leaves n)" and e: "(w - 1 - y, x) = upLeft l"
    by auto
  from l obtain ul lr c where n: "l = Node ul lr c Null Null Null Null"
    using leaves_are_leaves by blast
  from assms l n have p: "ul = lr" by (auto simp: pixelLeaves_def)
  from e n have "fst ul = w - 1 - y" "snd ul = x" by (simp_all add: prod_eq_iff)
  then have "upLeft (rotateCCW w l) = (x, y)" using n p by simp
  moreover have "rotateCCW w l \<in> set (leaves (rotateCCW w n))"
    using l by (simp add: leaves_rotateCCW)
  ultimately show "(x, y) \<in> upLeft ` set (leaves (rotateCCW w n))"
    by (metis imageI)
qed

lemma Render_RotateCCW_once:
  assumes "unpruned t"
  shows "\<exists>o1 o2. Render blank t 1 = Some o1 \<and> Render blank (RotateCCW t) 1 = Some o2 \<and>
     imgWidth o2 = imgHeight o1 \<and> imgHeight o2 = imgWidth o1 \<and>
     (\<forall>x y. imgData o2 (x, y) = imgData o1 (imgWidth o1 - 1 - y, x))"
proof -
  from assms obtain F where F: "pixelLeaves F (width t) (height t) (root t)"
    using unpruned_pixelLeaves by blast
  let ?F' = "\<lambda>p. F (width t - 1 - snd p, fst p)"
  have F': "pixelLeaves ?F' (width (RotateCCW t)) (height (RotateCCW t)) (root (RotateCCW t))"
    using pixelLeaves_rotateCCW [OF F] by (simp add: RotateCCW_def Let_def)
  note r1 = Render_pixelLeaves [OF F, of blank]
  note r2 = Render_pixelLeaves [OF F', of blank]
  have m: "(x, y) \<in> upLeft ` set (leaves (root (RotateCCW t))) \<longleftrightarrow>
      (width t - 1 - y, x) \<in> upLeft ` set (leaves (root t))" for x y
    using upLeft_rotateCCW [OF F] by (simp add: RotateCCW_def Let_def)
  show ?thesis
    by (intro exI conjI allI, rule r1, rule r2)
       (simp_all add: paint_data newPNG_def m, simp_all add: RotateCCW_def Let_def)
qed

text \<open>Rendering keeps the size of the raster it starts from.\<close>

lemma setPixel_size:
  "setPixel img x y c = Some img' \<Longrightarrow> imgWidth img' = imgWidth img \<and> imgHeight img' = imgHeight img"
  by (auto simp: setPixel_def split: if_splits)

lemma drawColumn_size:
  "drawColumn img px startY scale color y = Some img' \<Longrightarrow>
   imgWidth img' = imgWidth img \<and> imgHeight img' = imgHeight img"
proof (induction img px startY scale color y arbitrary: img' rule: drawColumn.induct)
  case (1 img px startY scale color y)
  show ?case
  proof (cases "y < scale")
    case True
    with "1.prems" obtain im where s: "setPixel img px (startY + y) color = Some im"
      and d: "drawColumn im px startY scale color (y + 1) = Some img'"
      by (subst (asm) drawColumn.simps) (auto split: bind_splits)
    from "1.IH" [OF True s d] setPixel_size [OF s] show ?thesis by simp
  next
    case False
    with "1.prems" show ?thesis by (subst (asm) drawColumn.simps) simp
  qed
qed

lemma drawRows_size:
  "drawRows img startX startY scale color x = Some img' \<Longrightarrow>
   imgWidth img' = imgWidth img \<and> imgHeight img' = imgHeight img"
proof (induction img startX startY scale color x arbitrary: img' rule: drawRows.induct)
  case (1 img startX startY scale color x)
  show ?case
  proof (cases "x < scale")
    case True
    with "1.prems" obtain im where s: "drawColumn img (startX + x) startY scale color 0 = Some im"
      and d: "drawRows im startX startY scale color (x + 1) = Some img'"
      by (subst (asm) drawRows.simps) (auto split: bind_splits)
    from "1.IH" [OF True s d] drawColumn_size [OF s] show ?thesis by simp
  next
    case False
    with "1.prems" show ?thesis by (subst (asm) drawRows.simps) simp
  qed
qed

lemma renderNode_size:
  "renderNode n img scale = Some img' \<Longrightarrow>
   imgWidth img' = imgWidth img \<and> imgHeight img' = imgHeight img"
proof (induction n arbitrary: img img')
  case Null
  then show ?case by simp
next
  case (Node ul lr c nw ne sw se)
  show ?case
  proof (cases "nw = Null \<and> ne = Null \<and> sw = Null \<and> se = Null")
    case True
    with Node.prems show ?thesis by (simp add: draw_def drawRows_size)
  next
    case False
    with Node.prems obtain i1 i2 i3 where
      "renderNode nw img scale = Some i1" "renderNode ne i1 scale = Some i2"
      "renderNode sw i2 scale = Some i3" "renderNode se i3 scale = Some img'"
      by (auto split: bind_splits)
    then show ?thesis
      using Node.IH(1) [of img i1] Node.IH(2) [of i1 i2] Node.IH(3) [of i2 i3]
        Node.IH(4) [of i3 img']
      by simp
  qed
qed

lemma Render_size:
  "Render blank t scale = Some out \<Longrightarrow>
   imgWidth out = width t * scale \<and> imgHeight out = height t * scale"
  by (auto simp: Render_def newPNG_def dest: renderNode_size)

text \<open>
  C8, as amended: four calls of \<open>RotateCCW\<close> give back the tree itself, so that it
  renders as the original at every scale; one call swaps the width and the height of
  the render; and on a tree that was never pruned the render after one call satisfies
  \<open>render(x, y) = original_render(width - 1 - y, x)\<close> at every pixel, \<open>width\<close> being the
  width before the rotation.
\<close>

theorem RotateCCW_periodicity:
  "RotateCCW (RotateCCW (RotateCCW (RotateCCW u))) = u \<and>
   Render blank (RotateCCW (RotateCCW (RotateCCW (RotateCCW u)))) scale = Render blank u scale \<and>
   (\<forall>o1 o2. Render blank u scale = Some o1 \<and> Render blank (RotateCCW u) scale = Some o2 \<longrightarrow>
      imgWidth o2 = imgHeight o1 \<and> imgHeight o2 = imgWidth o1) \<and>
   (unpruned t \<longrightarrow>
      (\<exists>o1 o2. Render blank t 1 = Some o1 \<and> Render blank (RotateCCW t) 1 = Some o2 \<and>
         (\<forall>x y. imgData o2 (x, y) = imgData o1 (width t - 1 - y, x))))"
proof (intro conjI allI impI)
  show r4: "RotateCCW (RotateCCW (RotateCCW (RotateCCW u))) = u" by (rule RotateCCW_four)
  show "Render blank (RotateCCW (RotateCCW (RotateCCW (RotateCCW u)))) scale = Render blank u scale"
    by (simp only: r4)
next
  fix o1 o2
  assume a: "Render blank u scale = Some o1 \<and> Render blank (RotateCCW u) scale = Some o2"
  then have r: "Render blank u scale = Some o1" "Render blank (RotateCCW u) scale = Some o2"
    by simp_all
  have "imgWidth o1 = width u * scale" "imgHeight o1 = height u * scale"
      "imgWidth o2 = width (RotateCCW u) * scale" "imgHeight o2 = height (RotateCCW u) * scale"
    using Render_size [OF r(1)] Render_size [OF r(2)] by simp_all
  then show "imgWidth o2 = imgHeight o1" "imgHeight o2 = imgWidth o1"
    by (simp_all add: RotateCCW_def Let_def)
next
  assume "unpruned t"
  from Render_RotateCCW_once [OF this, of blank] obtain o1 o2 where
    o: "Render blank t 1 = Some o1" "Render blank (RotateCCW t) 1 = Some o2"
      "\<forall>x y. imgData o2 (x, y) = imgData o1 (imgWidth o1 - 1 - y, x)"
    by blast
  from Render_size [OF o(1)] have "imgWidth o1 = width t" by simp
  with o show "\<exists>o1 o2. Render blank t 1 = Some o1 \<and> Render blank (RotateCCW t) 1 = Some o2 \<and>
         (\<forall>x y. imgData o2 (x, y) = imgData o1 (width t - 1 - y, x))"
    by auto
qed

text \<open>
  The theorem at the tree of the concrete scenario: the pixel \<open>(0, 0)\<close> after one rotation
  is the pixel \<open>(1, 0)\<close> of the original render.
\<close>

theorem RotateCCW_periodicity_witness:
  "unpruned (the (QTree img2x2)) \<and>
   RotateCCW (RotateCCW (RotateCCW (RotateCCW (the (QTree img2x2))))) = the (QTree img2x2) \<and>
   (\<exists>o1 o2. Render (RGBAPixel 255 255 255 1) (the (QTree img2x2)) 1 = Some o1 \<and>
      Render (RGBAPixel 255 255 255 1) (RotateCCW (the (QTree img2x2))) 1 = Some o2 \<and>
      imgWidth o2 = imgHeight o1 \<and> imgHeight o2 = imgWidth o1 \<and>
      imgData o2 (0, 0) = imgData o1 (1, 0))"
proof -
  have f: "fits32 img2x2" by (simp add: fits32_def img2x2_def)
  have "QTree img2x2 = Some (the (QTree img2x2))" by (simp add: QTree_img2x2)
  with f have u: "unpruned (the (QTree img2x2))" by (rule unpruned.build)
  have w: "width (the (QTree img2x2)) = 2" by (simp add: QTree_img2x2)
  note t = RotateCCW_periodicity [of "the (QTree img2x2)" "RGBAPixel 255 255 255 1" 1
      "the (QTree img2x2)"]
  note t1 = t [THEN conjunct1]
  note t3 = t [THEN conjunct2, THEN conjunct2, THEN conjunct1, rule_format]
  note t4 = t [THEN conjunct2, THEN conjunct2, THEN conjunct2, rule_format]
  from t4 [OF u] obtain o1 o2 where
    o: "Render (RGBAPixel 255 255 255 1) (the (QTree img2x2)) 1 = Some o1"
       "Render (RGBAPixel 255 255 255 1) (RotateCCW (the (QTree img2x2))) 1 = Some o2"
       "\<forall>x y. imgData o2 (x, y) = imgData o1 (width (the (QTree img2x2)) - 1 - y, x)"
    by (elim exE conjE)
  from o(3) have p: "imgData o2 (0, 0) = imgData o1 (1, 0)" by (simp add: w)
  have d: "imgWidth o2 = imgHeight o1 \<and> imgHeight o2 = imgWidth o1"
    by (rule t3) (simp add: o(1,2))
  show ?thesis
    by (intro conjI exI [of _ o1] exI [of _ o2])
       (rule u t1 o(1) o(2) p d [THEN conjunct1] d [THEN conjunct2])+
qed

text \<open>
  C8 as stated fails: on the raster of the concrete scenario the pixel \<open>(0, 0)\<close> of
  the render after one rotation is not the pixel \<open>(0, height - 1 - 0)\<close> of the original
  render.
\<close>

theorem RotateCCW_pixel_map_counterexample:
  "Render (RGBAPixel 255 255 255 1) (the (QTree img2x2)) 1 \<noteq> None \<and>
   Render (RGBAPixel 255 255 255 1) (RotateCCW (the (QTree img2x2))) 1 \<noteq> None \<and>
   imgData (the (Render (RGBAPixel 255 255 255 1) (RotateCCW (the (QTree img2x2))) 1)) (0, 0)
     \<noteq> imgData (the (Render (RGBAPixel 255 255 255 1) (the (QTree img2x2)) 1))
          (0, height (the (QTree img2x2)) - 1 - 0)"
  by (simp add: QTree_img2x2 RotateCCW_def Render_def newPNG_def draw_scale1 setPixel_def)

section \<open>The averaging rule at every node\<close>

text \<open>
  At every internal node of a built tree the colour channels of \<open>avg\<close> are the
  quotients of the code, in its unsigned 32-bit arithmetic.
\<close>

lemma addChild_share:
  "addChild n a (tr, tg, tb, ta) =
     (tr + share red n a, tg + share green n a, tb + share blue n a, ta + shareAlpha n (unat a))"
  by (cases n) simp_all

lemma nodeAvg_shares:
  assumes "nodeAvg ul lr midX midY nw ne sw se = Some c"
  defines "areaNW \<equiv> (midX - fst ul + 1) * (midY - snd ul + 1)"
    and "areaNE \<equiv> (fst lr - (midX + 1) + 1) * (midY - snd ul + 1)"
    and "areaSW \<equiv> (midX - fst ul + 1) * (snd lr - (midY + 1) + 1)"
    and "areaSE \<equiv> (fst lr - (midX + 1) + 1) * (snd lr - (midY + 1) + 1)"
    and "totalArea \<equiv> (fst lr - fst ul + 1) * (snd lr - snd ul + 1)"
  shows "red c = ucast ((share red nw areaNW + share red ne areaNE +
                         share red sw areaSW + share red se areaSE) div totalArea)"
    and "green c = ucast ((share green nw areaNW + share green ne areaNE +
                         share green sw areaSW + share green se areaSE) div totalArea)"
    and "blue c = ucast ((share blue nw areaNW + share blue ne areaNE +
                         share blue sw areaSW + share blue se areaSE) div totalArea)"
  using assms(1)
  unfolding nodeAvg_def Let_def addChild_share areaNW_def areaNE_def areaSW_def areaSE_def
    totalArea_def
  by (auto split: if_splits)

lemma nodeArea_built:
  "built img ul lr t \<Longrightarrow> nodeArea t = (fst lr - fst ul + 1) * (snd lr - snd ul + 1)"
  by (erule built.cases) simp_all

lemma built_avgRule: "built img ul lr t \<Longrightarrow> avgRule t"
proof (induction rule: built.induct)
  case (pixel ul)
  then show ?case by simp
next
  case (column ul lr midX midY nw sw c)
  note a = nodeAvg_shares [OF column(8)]
  note k = nodeArea_built [OF column(6)] nodeArea_built [OF column(7)]
  show ?case
    using built_not_Null [OF column(6)] column.IH a
    by (simp add: avgAt_def k Let_def)
next
  case (row ul lr midX midY nw ne c)
  note a = nodeAvg_shares [OF row(8)]
  note k = nodeArea_built [OF row(6)] nodeArea_built [OF row(7)]
  show ?case
    using built_not_Null [OF row(6)] row.IH a
    by (simp add: avgAt_def k Let_def)
next
  case (quad ul lr midX midY nw ne sw se c)
  note a = nodeAvg_shares [OF quad(10)]
  note k = nodeArea_built [OF quad(6)] nodeArea_built [OF quad(7)]
    nodeArea_built [OF quad(8)] nodeArea_built [OF quad(9)]
  show ?case
    using built_not_Null [OF quad(6)] quad.IH a
    by (simp add: avgAt_def k Let_def)
qed

lemma built_avgAt:
  assumes "built img ul lr (Node ul' lr' c nw ne sw se)" and "nw \<noteq> Null"
  shows "avgAt (Node ul' lr' c nw ne sw se)"
  using built_avgRule [OF assms(1)] assms(2) by simp

lemma avgAt_channel:
  assumes "avgAt n" and "ch = red \<or> ch = green \<or> ch = blue"
  shows "ch (avg n) = ucast ((share ch (NW n) (nodeArea (NW n)) + share ch (NE n) (nodeArea (NE n)) +
           share ch (SW n) (nodeArea (SW n)) + share ch (SE n) (nodeArea (SE n))) div nodeArea n)"
  using assms by (auto simp: avgAt_def Let_def)

text \<open>
  An induction principle for built trees that treats the three kinds of internal nodes
  at once: a property that holds for every leaf, and for every internal node whose
  present children have it, holds for every built tree.
\<close>

lemma built_induct_kids [consumes 1, case_names leaf node]:
  assumes b: "built img ul lr t"
    and leaf: "\<And>ul. inside img ul ul \<Longrightarrow> P (Node ul ul (imgData img ul) Null Null Null Null)"
    and node: "\<And>ul lr c nw ne sw se.
      \<lbrakk>built img ul lr (Node ul lr c nw ne sw se); nw \<noteq> Null;
       nw = Null \<or> (\<exists>u l. built img u l nw); ne = Null \<or> (\<exists>u l. built img u l ne);
       sw = Null \<or> (\<exists>u l. built img u l sw); se = Null \<or> (\<exists>u l. built img u l se);
       nw = Null \<or> P nw; ne = Null \<or> P ne; sw = Null \<or> P sw; se = Null \<or> P se\<rbrakk>
      \<Longrightarrow> P (Node ul lr c nw ne sw se)"
  shows "P t"
  using b
proof (induction rule: built.induct)
  case (pixel ul)
  then show ?case by (rule leaf)
next
  case (column ul lr midX midY nw sw c)
  have p: "built img ul lr (Node ul lr c nw Null sw Null)"
    using column(1-8) by (rule built.column)
  have k: "nw = Null \<or> (\<exists>u l. built img u l nw)" "Null = Null \<or> (\<exists>u l. built img u l Null)"
      "sw = Null \<or> (\<exists>u l. built img u l sw)"
    using column(6,7) by blast+
  have i: "nw = Null \<or> P nw" "Null = Null \<or> P Null" "sw = Null \<or> P sw"
    using column.IH by simp_all
  note nn = built_not_Null [OF column(6)]
  show ?case using p nn k(1) k(2) k(3) k(2) i(1) i(2) i(3) i(2) by (rule node)
next
  case (row ul lr midX midY nw ne c)
  have p: "built img ul lr (Node ul lr c nw ne Null Null)"
    using row(1-8) by (rule built.row)
  have k: "nw = Null \<or> (\<exists>u l. built img u l nw)" "ne = Null \<or> (\<exists>u l. built img u l ne)"
      "Null = Null \<or> (\<exists>u l. built img u l Null)"
    using row(6,7) by blast+
  have i: "nw = Null \<or> P nw" "ne = Null \<or> P ne" "Null = Null \<or> P Null"
    using row.IH by simp_all
  note nn = built_not_Null [OF row(6)]
  show ?case using p nn k(1) k(2) k(3) k(3) i(1) i(2) i(3) i(3) by (rule node)
next
  case (quad ul lr midX midY nw ne sw se c)
  have p: "built img ul lr (Node ul lr c nw ne sw se)"
    using quad(1-10) by (rule built.quad)
  have k: "nw = Null \<or> (\<exists>u l. built img u l nw)" "ne = Null \<or> (\<exists>u l. built img u l ne)"
      "sw = Null \<or> (\<exists>u l. built img u l sw)" "se = Null \<or> (\<exists>u l. built img u l se)"
    using quad(6-9) by blast+
  have i: "nw = Null \<or> P nw" "ne = Null \<or> P ne" "sw = Null \<or> P sw" "se = Null \<or> P se"
    using quad.IH by simp_all
  note nn = built_not_Null [OF quad(6)]
  show ?case using p nn k i by (rule node)
qed

text \<open>
  The areas of the code are the numbers of pixels, and the pixels of a node are those
  of its children.
\<close>

lemma pixelCount_built:
  "built img ul lr t \<Longrightarrow>
   pixelCount t = (unat (fst lr) - unat (fst ul) + 1) * (unat (snd lr) - unat (snd ul) + 1)"
  by (erule built.cases) simp_all

lemma built_counts:
  assumes f: "fits32 img" and b: "built img ul lr t"
  shows "unat (nodeArea t) = pixelCount t" and "pixelCount t = length (leaves t)"
proof -
  note i = built_inside [OF b]
  show "unat (nodeArea t) = pixelCount t"
    by (simp only: nodeArea_built [OF b] pixelCount_built [OF b] unat_area [OF f i])
  show "pixelCount t = length (leaves t)"
    by (simp only: pixelCount_built [OF b] leaves_built_length [OF f b])
qed

lemma kid_counts:
  assumes f: "fits32 img" and k: "k = Null \<or> (\<exists>u l. built img u l k)"
  shows "unat (nodeArea k) = pixelCount k" and "pixelCount k = length (leaves k)"
  using k built_counts [OF f] by auto

lemma pixelCount_pos: "built img ul lr t \<Longrightarrow> 0 < pixelCount t"
  by (erule built.cases) simp_all

lemma pixelCount_kids:
  assumes f: "fits32 img"
    and p: "built img ul lr (Node ul' lr' c nw ne sw se)"
    and k: "nw = Null \<or> (\<exists>u l. built img u l nw)" "ne = Null \<or> (\<exists>u l. built img u l ne)"
      "sw = Null \<or> (\<exists>u l. built img u l sw)" "se = Null \<or> (\<exists>u l. built img u l se)"
    and nn: "nw \<noteq> Null"
  shows "pixelCount (Node ul' lr' c nw ne sw se) =
         pixelCount nw + pixelCount ne + pixelCount sw + pixelCount se"
proof -
  let ?n = "Node ul' lr' c nw ne sw se"
  note cn = built_counts [OF f p]
  note c1 = kid_counts [OF f k(1)] and c2 = kid_counts [OF f k(2)]
    and c3 = kid_counts [OF f k(3)] and c4 = kid_counts [OF f k(4)]
  have "length (leaves ?n) = length (leaves nw) + length (leaves ne) + length (leaves sw)
      + length (leaves se)"
    using nn by auto
  then show ?thesis
    by (simp only: cn(2) c1(2) c2(2) c3(2) c4(2))
qed

text \<open>
  When 255 times the number of pixels of a node is below \<open>2 ^ 32\<close> the sums of its
  channels do not wrap, and the quotients of the code are those of the natural numbers.
\<close>

lemma unat_ucast_down:
  fixes x :: uint
  assumes "unat x \<le> 255"
  shows "unat (ucast x :: 8 word) = unat x"
proof -
  have "unat x < 2 ^ 8" using assms by simp
  then show ?thesis by (simp add: unsigned_ucast_eq take_bit_nat_eq_self)
qed

lemma quotient_exact:
  fixes s1 s2 s3 s4 A :: uint
  assumes le: "unat s1 + unat s2 + unat s3 + unat s4 \<le> 255 * unat A"
    and bnd: "255 * unat A < 2 ^ 32"
  shows "unat (ucast ((s1 + s2 + s3 + s4) div A) :: 8 word) =
         (unat s1 + unat s2 + unat s3 + unat s4) div unat A"
proof -
  have lt: "unat s1 + unat s2 + unat s3 + unat s4 < 2 ^ LENGTH(32)"
    using le bnd by simp
  then have "unat s1 + unat s2 < 2 ^ LENGTH(32)" by simp
  then have 1: "unat (s1 + s2) = unat s1 + unat s2" by (simp only: unat_add_lem)
  have "unat (s1 + s2) + unat s3 < 2 ^ LENGTH(32)" using lt by (simp add: 1)
  then have 2: "unat (s1 + s2 + s3) = unat s1 + unat s2 + unat s3"
    by (simp only: unat_add_lem [THEN iffD1] 1)
  have "unat (s1 + s2 + s3) + unat s4 < 2 ^ LENGTH(32)" using lt by (simp add: 2)
  then have 3: "unat (s1 + s2 + s3 + s4) = unat s1 + unat s2 + unat s3 + unat s4"
    by (simp only: unat_add_lem [THEN iffD1] 2)
  have q: "unat ((s1 + s2 + s3 + s4) div A) = (unat s1 + unat s2 + unat s3 + unat s4) div unat A"
    by (simp only: unat_div 3)
  have "(unat s1 + unat s2 + unat s3 + unat s4) div unat A \<le> 255 * unat A div unat A"
    using le by (rule div_le_mono)
  also have "\<dots> \<le> 255" by (cases "unat A = 0") simp_all
  finally have "unat ((s1 + s2 + s3 + s4) div A) \<le> 255" by (simp only: q)
  then have "unat (ucast ((s1 + s2 + s3 + s4) div A) :: 8 word) = unat ((s1 + s2 + s3 + s4) div A)"
    by (rule unat_ucast_down)
  then show ?thesis by (simp only: q)
qed

lemma channel_le: "unat (r :: 8 word) \<le> 255"
proof -
  have "unat r < 2 ^ LENGTH(8)" by (rule unsigned_less)
  then show ?thesis by simp
qed

lemma shareExact_le: "shareExact ch k \<le> 255 * pixelCount k"
proof (cases k)
  case Null
  then show ?thesis by simp
next
  case (Node ul lr col nw ne sw se)
  have "unat (ch col) \<le> 255" by (rule channel_le)
  then have "unat (ch col) * pixelCount k \<le> 255 * pixelCount k" by (rule mult_le_mono1)
  then show ?thesis using Node by simp
qed

lemma share_exact:
  assumes f: "fits32 img" and k: "k = Null \<or> (\<exists>u l. built img u l k)"
    and bnd: "255 * pixelCount k < 2 ^ 32"
  shows "unat (share ch k (nodeArea k)) = shareExact ch k"
proof (cases k)
  case Null
  then show ?thesis by simp
next
  case (Node ul lr col nw ne sw se)
  note c = kid_counts [OF f k]
  have ch: "unat (ch col) \<le> 255" by (rule channel_le)
  have "unat (ucast (ch col) :: uint) * unat (nodeArea k) \<le> 255 * pixelCount k"
    using ch by (simp add: unat_ucast_channel c(1))
  also note bnd
  finally have "unat (ucast (ch col) :: uint) * unat (nodeArea k) < 2 ^ LENGTH(32)"
    by simp
  then have "unat (ucast (ch col) * nodeArea k) = unat (ucast (ch col) :: uint) * unat (nodeArea k)"
    by (simp only: unat_mult_lem)
  then have "unat (ucast (ch col) * nodeArea k) = unat (ch col) * pixelCount k"
    by (simp only: unat_ucast_channel c(1))
  then show ?thesis using Node by simp
qed

lemma exact_at:
  assumes f: "fits32 img"
    and p: "built img ul lr (Node ul' lr' c nw ne sw se)"
    and k: "nw = Null \<or> (\<exists>u l. built img u l nw)" "ne = Null \<or> (\<exists>u l. built img u l ne)"
      "sw = Null \<or> (\<exists>u l. built img u l sw)" "se = Null \<or> (\<exists>u l. built img u l se)"
    and nn: "nw \<noteq> Null"
    and bnd: "255 * pixelCount (Node ul' lr' c nw ne sw se) < 2 ^ 32"
    and ch: "ch = red \<or> ch = green \<or> ch = blue"
  shows "colourAt ch (Node ul' lr' c nw ne sw se)"
proof -
  let ?n = "Node ul' lr' c nw ne sw se"
  note cn = built_counts [OF f p]
  note sum = pixelCount_kids [OF f p k nn]
  have b: "255 * pixelCount nw < 2 ^ 32" "255 * pixelCount ne < 2 ^ 32"
      "255 * pixelCount sw < 2 ^ 32" "255 * pixelCount se < 2 ^ 32"
    using bnd unfolding sum by simp_all
  note s1 = share_exact [OF f k(1) b(1), of ch] and s2 = share_exact [OF f k(2) b(2), of ch]
    and s3 = share_exact [OF f k(3) b(3), of ch] and s4 = share_exact [OF f k(4) b(4), of ch]
  have "shareExact ch nw + shareExact ch ne + shareExact ch sw + shareExact ch se
      \<le> 255 * pixelCount nw + 255 * pixelCount ne + 255 * pixelCount sw + 255 * pixelCount se"
    using shareExact_le [of ch nw] shareExact_le [of ch ne] shareExact_le [of ch sw]
      shareExact_le [of ch se] by linarith
  also have "\<dots> = 255 * pixelCount ?n" by (simp only: sum distrib_left)
  finally have le: "unat (share ch nw (nodeArea nw)) + unat (share ch ne (nodeArea ne)) +
      unat (share ch sw (nodeArea sw)) + unat (share ch se (nodeArea se))
      \<le> 255 * unat (nodeArea ?n)"
    by (simp only: s1 s2 s3 s4 cn(1))
  have b': "255 * unat (nodeArea ?n) < 2 ^ 32" using bnd by (simp only: cn(1))
  have a: "avgAt ?n" using p nn by (rule built_avgAt)
  have w: "ch c = ucast ((share ch nw (nodeArea nw) + share ch ne (nodeArea ne) +
               share ch sw (nodeArea sw) + share ch se (nodeArea se)) div nodeArea ?n)"
    using avgAt_channel [OF a ch] by simp
  have "unat (ch c) = (unat (share ch nw (nodeArea nw)) + unat (share ch ne (nodeArea ne)) +
      unat (share ch sw (nodeArea sw)) + unat (share ch se (nodeArea se))) div unat (nodeArea ?n)"
    unfolding w using le b' by (rule quotient_exact)
  then show ?thesis
    unfolding colourAt_def weightedMean_def node.sel by (simp only: s1 s2 s3 s4 cn(1))
qed

section \<open>The average of a white raster\<close>

text \<open>
  In a raster whose pixels all have the same value of a channel, every node small
  enough for its sums not to wrap has that value as its average.
\<close>

lemma shareExact_avg: "k \<noteq> Null \<Longrightarrow> shareExact ch k = unat (ch (avg k)) * pixelCount k"
  by (cases k) simp_all

lemma share_avg: "k \<noteq> Null \<Longrightarrow> share ch k a = ucast (ch (avg k)) * a"
  by (cases k) simp_all

lemma uniform_share:
  assumes "k = Null \<or> (255 * pixelCount k < 2 ^ 32 \<longrightarrow> ch (avg k) = v)"
    and "255 * pixelCount k < 2 ^ 32"
  shows "shareExact ch k = unat v * pixelCount k"
  using assms by (cases k) auto

lemma built_uniform:
  assumes f: "fits32 img" and u: "\<And>p. ch (imgData img p) = v"
    and ch: "ch = red \<or> ch = green \<or> ch = blue"
  shows "built img ul lr t \<Longrightarrow> 255 * pixelCount t < 2 ^ 32 \<longrightarrow> ch (avg t) = v"
proof (induction rule: built_induct_kids)
  case (leaf ul)
  show ?case by (simp add: u)
next
  case (node ul lr c nw ne sw se)
  let ?n = "Node ul lr c nw ne sw se"
  show ?case
  proof
    assume bnd: "255 * pixelCount ?n < 2 ^ 32"
    note sum = pixelCount_kids [OF f node(1) node(3-6) node(2)]
    have b: "255 * pixelCount nw < 2 ^ 32" "255 * pixelCount ne < 2 ^ 32"
        "255 * pixelCount sw < 2 ^ 32" "255 * pixelCount se < 2 ^ 32"
      using bnd unfolding sum by simp_all
    have s1: "shareExact ch nw = unat v * pixelCount nw"
      using node(7) b(1) by (rule uniform_share)
    have s2: "shareExact ch ne = unat v * pixelCount ne"
      using node(8) b(2) by (rule uniform_share)
    have s3: "shareExact ch sw = unat v * pixelCount sw"
      using node(9) b(3) by (rule uniform_share)
    have s4: "shareExact ch se = unat v * pixelCount se"
      using node(10) b(4) by (rule uniform_share)
    note s = s1 s2 s3 s4
    have pos: "0 < pixelCount ?n" using node(1) by (rule pixelCount_pos)
    have "colourAt ch ?n" using f node(1) node(3-6) node(2) bnd ch by (rule exact_at)
    then have "unat (ch c) = (unat v * pixelCount nw + unat v * pixelCount ne +
        unat v * pixelCount sw + unat v * pixelCount se) div pixelCount ?n"
      unfolding colourAt_def weightedMean_def node.sel by (simp only: s)
    also have "unat v * pixelCount nw + unat v * pixelCount ne +
        unat v * pixelCount sw + unat v * pixelCount se = unat v * pixelCount ?n"
      by (simp only: sum distrib_left)
    also have "unat v * pixelCount ?n div pixelCount ?n = unat v"
      using pos [THEN less_imp_neq [THEN not_sym]] by (rule nonzero_mult_div_cancel_right)
    finally have "ch c = v" by (simp only: word_unat_eq_iff)
    then show "ch (avg ?n) = v" by simp
  qed
qed

lemma built_quadE:
  assumes "built img ul lr t" and "fst lr \<noteq> fst ul" and "snd ul \<noteq> snd lr"
  obtains c nw ne sw se where "t = Node ul lr c nw ne sw se"
    and "built img ul ((fst ul + fst lr) div 2, (snd ul + snd lr) div 2) nw"
    and "built img ((fst ul + fst lr) div 2 + 1, snd ul) (fst lr, (snd ul + snd lr) div 2) ne"
    and "built img (fst ul, (snd ul + snd lr) div 2 + 1) ((fst ul + fst lr) div 2, snd lr) sw"
    and "built img ((fst ul + fst lr) div 2 + 1, (snd ul + snd lr) div 2 + 1) lr se"
  using assms(1)
proof (cases rule: built.cases)
  case pixel
  then show ?thesis using assms(2) by simp
next
  case (column midX midY nw sw c)
  then show ?thesis using assms(2) by simp
next
  case (row midX midY nw ne c)
  then show ?thesis using assms(3) by simp
next
  case (quad midX midY nw ne sw se c)
  then show ?thesis by (intro that [of c nw ne sw se]) simp_all
qed

text \<open>
  C5 fails on the code: in the tree of the raster of 8192 by 4096 white pixels the four
  children of the root have 8388608 pixels each and the average 255 in every colour
  channel, so that the sum of \<open>child.avg * child.area\<close> over the children divided by
  the area of the root is 255; the sum \<open>255 * 33554432\<close> exceeds \<open>2 ^ 32\<close>, the
  accumulators of \<open>BuildNode\<close> wrap around, and the root's \<open>avg\<close> is 127 in every colour
  channel.
\<close>

theorem Build_avg_wraps_on_white_raster:
  "\<exists>t. QTree white8192x4096 = Some t \<and>
     pixelCount (root t) = 33554432 \<and>
     map pixelCount [NW (root t), NE (root t), SW (root t), SE (root t)] =
       [8388608, 8388608, 8388608, 8388608] \<and>
     map (\<lambda>k. (red (avg k), green (avg k), blue (avg k)))
       [NW (root t), NE (root t), SW (root t), SE (root t)] =
       [(255, 255, 255), (255, 255, 255), (255, 255, 255), (255, 255, 255)] \<and>
     weightedMean red (root t) = 255 \<and>
     weightedMean green (root t) = 255 \<and>
     weightedMean blue (root t) = 255 \<and>
     red (avg (root t)) = 127 \<and> green (avg (root t)) = 127 \<and> blue (avg (root t)) = 127"
proof -
  let ?img = white8192x4096
  have f: "fits32 ?img" by (simp add: fits32_def white8192x4096_def)
  from f obtain nd where
    q: "QTree ?img = Some \<lparr>root = nd, height = imgHeight ?img, width = imgWidth ?img\<rparr>"
    and b0: "built ?img (0, 0) (imgWidth ?img - 1, imgHeight ?img - 1) nd"
    by (rule QTree_built)
  have b: "built ?img (0, 0) (8191, 4095) nd"
    using b0 by (simp add: white8192x4096_def)
  from b obtain c nw ne sw se where
    nd: "nd = Node (0, 0) (8191, 4095) c nw ne sw se"
    and k: "built ?img (0, 0) (4095, 2047) nw" "built ?img (4096, 0) (8191, 2047) ne"
      "built ?img (0, 2048) (4095, 4095) sw" "built ?img (4096, 2048) (8191, 4095) se"
    by (rule built_quadE) simp_all
  note nn = built_not_Null [OF k(1)] built_not_Null [OF k(2)]
    built_not_Null [OF k(3)] built_not_Null [OF k(4)]
  have pc: "pixelCount nw = 8388608" "pixelCount ne = 8388608"
      "pixelCount sw = 8388608" "pixelCount se = 8388608"
    by (simp_all add: pixelCount_built [OF k(1)] pixelCount_built [OF k(2)]
        pixelCount_built [OF k(3)] pixelCount_built [OF k(4)])
  have na: "nodeArea nw = 8388608" "nodeArea ne = 8388608"
      "nodeArea sw = 8388608" "nodeArea se = 8388608"
    by (simp_all add: nodeArea_built [OF k(1)] nodeArea_built [OF k(2)]
        nodeArea_built [OF k(3)] nodeArea_built [OF k(4)])
  have w: "ch (avg nw) = 255 \<and> ch (avg ne) = 255 \<and> ch (avg sw) = 255 \<and> ch (avg se) = 255"
    if ch: "ch = red \<or> ch = green \<or> ch = blue" for ch
  proof -
    have u: "\<And>p. ch (imgData ?img p) = 255"
      using ch by (auto simp: white8192x4096_def)
    show ?thesis
      using built_uniform [OF f u ch k(1)] built_uniform [OF f u ch k(2)]
        built_uniform [OF f u ch k(3)] built_uniform [OF f u ch k(4)]
      by (simp add: pc)
  qed
  note wr = w [of red, simplified] and wg = w [of green, simplified]
    and wb = w [of blue, simplified]
  have a: "avgAt (Node (0, 0) (8191, 4095) c nw ne sw se)"
    using b nn(1) unfolding nd by (rule built_avgAt)
  have root: "red c = 127" "green c = 127" "blue c = 127"
    using a by (simp_all add: avgAt_def Let_def share_avg nn na wr wg wb)
  have mean: "weightedMean ch nd = 255" if "ch (avg nw) = 255 \<and> ch (avg ne) = 255 \<and>
      ch (avg sw) = 255 \<and> ch (avg se) = 255" for ch
    using that by (simp add: weightedMean_def nd shareExact_avg nn pc)
  show ?thesis
    using q by (simp add: nd pc wr wg wb root mean [unfolded nd])
qed

section \<open>Averages and true means\<close>

text \<open>
  The leaves of a built tree are the pixels of its rectangle, so that the sum of a
  channel over the leaves is its sum over the rectangle.
\<close>

lemma leafSum_rect:
  assumes f: "fits32 img" and b: "built img ul lr t"
  shows "(\<Sum>l\<leftarrow>leaves t. g (avg l)) = (\<Sum>p \<in> rect ul lr. g (imgData img p))"
proof -
  have "map (\<lambda>l. g (avg l)) (leaves t) = map (\<lambda>l. g (imgData img (upLeft l))) (leaves t)"
    using leaves_built_pixels [OF b] by (intro map_cong refl) simp
  also have "\<dots> = map (\<lambda>p. g (imgData img p)) (map upLeft (leaves t))"
    by (simp add: comp_def)
  finally have "(\<Sum>l\<leftarrow>leaves t. g (avg l)) = (\<Sum>p\<leftarrow>map upLeft (leaves t). g (imgData img p))"
    by (simp only:)
  also have "\<dots> = (\<Sum>p \<in> set (map upLeft (leaves t)). g (imgData img p))"
    using leaves_built_distinct [OF f b] by (rule sum_list_distinct_conv_sum_set)
  also have "set (map upLeft (leaves t)) = rect ul lr"
    using leaves_built_rect [OF f b] by simp
  finally show ?thesis .
qed

lemma card_rect:
  assumes f: "fits32 img" and b: "built img ul lr t"
  shows "card (rect ul lr) = pixelCount t"
proof -
  have "card (set (map upLeft (leaves t))) = length (map upLeft (leaves t))"
    using leaves_built_distinct [OF f b] by (rule distinct_card)
  moreover have "set (map upLeft (leaves t)) = rect ul lr"
    using leaves_built_rect [OF f b] by simp
  ultimately show ?thesis by (simp add: built_counts(2) [OF f b])
qed

text \<open>
  One step of averaging: if for each child the product \<open>s\<close> of its average and its
  number of pixels \<open>a\<close> is at most the sum \<open>L\<close> over its leaves, and \<open>L\<close> exceeds \<open>s\<close> by at
  most \<open>h * (a - 1)\<close>, then the truncated quotient of the sum of the products by the
  number of pixels of the node stands in the same relation to the sum over all
  leaves, with one more level.
\<close>

lemma averaging_step:
  fixes a1 a2 a3 a4 s1 s2 s3 s4 L1 L2 L3 L4 h1 h2 h3 h4 :: nat
  assumes pos: "0 < a1"
    and lo: "s1 \<le> L1" "s2 \<le> L2" "s3 \<le> L3" "s4 \<le> L4"
    and up: "L1 \<le> s1 + h1 * (a1 - 1)" "L2 \<le> s2 + h2 * (a2 - 1)"
      "L3 \<le> s3 + h3 * (a3 - 1)" "L4 \<le> s4 + h4 * (a4 - 1)"
  defines "A \<equiv> a1 + a2 + a3 + a4" and "T \<equiv> s1 + s2 + s3 + s4"
    and "H \<equiv> max (max h1 h2) (max h3 h4)"
  shows "T div A * A \<le> L1 + L2 + L3 + L4"
    and "L1 + L2 + L3 + L4 \<le> T div A * A + Suc H * (A - 1)"
proof -
  have "T div A * A \<le> T" by (rule div_times_less_eq_dividend)
  also have "T \<le> L1 + L2 + L3 + L4" unfolding T_def using lo by linarith
  finally show "T div A * A \<le> L1 + L2 + L3 + L4" .
  have A: "0 < A" unfolding A_def using pos by simp
  have h: "h1 \<le> H" "h2 \<le> H" "h3 \<le> H" "h4 \<le> H" unfolding H_def by simp_all
  have u: "L1 \<le> s1 + H * (a1 - 1)" "L2 \<le> s2 + H * (a2 - 1)"
      "L3 \<le> s3 + H * (a3 - 1)" "L4 \<le> s4 + H * (a4 - 1)"
    using up mult_le_mono1 [OF h(1), of "a1 - 1"] mult_le_mono1 [OF h(2), of "a2 - 1"]
      mult_le_mono1 [OF h(3), of "a3 - 1"] mult_le_mono1 [OF h(4), of "a4 - 1"]
    by linarith+
  have "(a1 - 1) + (a2 - 1) + (a3 - 1) + (a4 - 1) \<le> A - 1"
    unfolding A_def using pos by linarith
  then have "H * ((a1 - 1) + (a2 - 1) + (a3 - 1) + (a4 - 1)) \<le> H * (A - 1)"
    by (rule mult_le_mono2)
  then have r: "H * (a1 - 1) + H * (a2 - 1) + H * (a3 - 1) + H * (a4 - 1) \<le> H * (A - 1)"
    by (simp only: distrib_left)
  have "T mod A < A" using A by simp
  then have m: "T mod A \<le> A - 1" by linarith
  have "L1 + L2 + L3 + L4 \<le> T + (H * (a1 - 1) + H * (a2 - 1) + H * (a3 - 1) + H * (a4 - 1))"
    unfolding T_def using u by linarith
  also have "\<dots> \<le> T + H * (A - 1)" using r by linarith
  also have "T = T div A * A + T mod A" by simp
  also have "T div A * A + T mod A + H * (A - 1) \<le> T div A * A + (A - 1) + H * (A - 1)"
    using m by linarith
  also have "\<dots> = T div A * A + Suc H * (A - 1)" by simp
  finally show "L1 + L2 + L3 + L4 \<le> T div A * A + Suc H * (A - 1)" .
qed

text \<open>
  At every node small enough for its sums not to wrap, the product of a colour channel
  of \<open>avg\<close> and the number of pixels is at most the sum of the channel over the leaves,
  and the sum exceeds it by at most \<open>levels\<close> times the number of pixels less one.
\<close>

lemma kid_sandwich:
  assumes "k = Null \<or> (255 * pixelCount k < 2 ^ 32 \<longrightarrow>
      unat (ch (avg k)) * pixelCount k \<le> (\<Sum>l\<leftarrow>leaves k. unat (ch (avg l))) \<and>
      (\<Sum>l\<leftarrow>leaves k. unat (ch (avg l)))
        \<le> unat (ch (avg k)) * pixelCount k + levels k * (pixelCount k - 1))"
    and "255 * pixelCount k < 2 ^ 32"
  shows "shareExact ch k \<le> (\<Sum>l\<leftarrow>leaves k. unat (ch (avg l)))"
    and "(\<Sum>l\<leftarrow>leaves k. unat (ch (avg l))) \<le> shareExact ch k + levels k * (pixelCount k - 1)"
proof -
  show "shareExact ch k \<le> (\<Sum>l\<leftarrow>leaves k. unat (ch (avg l)))"
  proof (cases "k = Null")
    case True
    then show ?thesis by simp
  next
    case False
    then show ?thesis using assms by (simp only: shareExact_avg [OF False]) simp
  qed
  show "(\<Sum>l\<leftarrow>leaves k. unat (ch (avg l))) \<le> shareExact ch k + levels k * (pixelCount k - 1)"
  proof (cases "k = Null")
    case True
    then show ?thesis by simp
  next
    case False
    then show ?thesis using assms by (simp only: shareExact_avg [OF False]) simp
  qed
qed

lemma built_sandwich:
  assumes f: "fits32 img" and ch: "ch = red \<or> ch = green \<or> ch = blue"
  shows "built img ul lr t \<Longrightarrow> 255 * pixelCount t < 2 ^ 32 \<longrightarrow>
     unat (ch (avg t)) * pixelCount t \<le> (\<Sum>l\<leftarrow>leaves t. unat (ch (avg l))) \<and>
     (\<Sum>l\<leftarrow>leaves t. unat (ch (avg l)))
       \<le> unat (ch (avg t)) * pixelCount t + levels t * (pixelCount t - 1)"
proof (induction rule: built_induct_kids)
  case (leaf ul)
  show ?case by simp
next
  case (node ul lr c nw ne sw se)
  let ?n = "Node ul lr c nw ne sw se"
  let ?L = "\<lambda>k. \<Sum>l\<leftarrow>leaves k. unat (ch (avg l))"
  show ?case
  proof
    assume bnd: "255 * pixelCount ?n < 2 ^ 32"
    note sum = pixelCount_kids [OF f node(1) node(3-6) node(2)]
    have b: "255 * pixelCount nw < 2 ^ 32" "255 * pixelCount ne < 2 ^ 32"
        "255 * pixelCount sw < 2 ^ 32" "255 * pixelCount se < 2 ^ 32"
      using bnd unfolding sum by simp_all
    note k1 = kid_sandwich [OF node(7) b(1)] and k2 = kid_sandwich [OF node(8) b(2)]
      and k3 = kid_sandwich [OF node(9) b(3)] and k4 = kid_sandwich [OF node(10) b(4)]
    have pos: "0 < pixelCount nw"
      using node(3) node(2) pixelCount_pos by blast
    have e: "colourAt ch ?n" using f node(1) node(3-6) node(2) bnd ch by (rule exact_at)
    then have c: "unat (ch c) = (shareExact ch nw + shareExact ch ne + shareExact ch sw +
        shareExact ch se) div (pixelCount nw + pixelCount ne + pixelCount sw + pixelCount se)"
      unfolding colourAt_def weightedMean_def node.sel by (simp only: sum)
    have lv: "levels ?n = Suc (max (max (levels nw) (levels ne)) (max (levels sw) (levels se)))"
      using node(2) by simp
    have lf: "?L ?n = ?L nw + ?L ne + ?L sw + ?L se"
      using node(2) by simp
    note st = averaging_step [OF pos k1(1) k2(1) k3(1) k4(1) k1(2) k2(2) k3(2) k4(2)]
    show "unat (ch (avg ?n)) * pixelCount ?n \<le> ?L ?n \<and>
        ?L ?n \<le> unat (ch (avg ?n)) * pixelCount ?n + levels ?n * (pixelCount ?n - 1)"
      unfolding node.sel lf lv c sum by (intro conjI st)
  qed
qed

lemma le_div_of_mult_le:
  fixes x n s :: nat
  assumes "x * n \<le> s" "0 < n"
  shows "x \<le> s div n"
  using assms by (simp add: less_eq_div_iff_mult_less_eq)

lemma div_le_of_le_levels:
  fixes x n s h :: nat
  assumes "s \<le> x * n + h * (n - 1)" "0 < n"
  shows "s div n \<le> x + (h - 1)"
proof (cases h)
  case 0
  then have "s \<le> x * n" using assms(1) by simp
  then have "s div n \<le> x * n div n" by (rule div_le_mono)
  then show ?thesis using assms(2) by simp
next
  case (Suc j)
  have "n - 1 < n" using assms(2) by simp
  moreover have "0 < h" using Suc by simp
  ultimately have "h * (n - 1) < h * n" by (rule mult_less_mono2)
  then have "s < x * n + h * n" using assms(1) by linarith
  then have "s < (x + h) * n" by (simp only: distrib_right)
  then have "s div n < x + h" by (rule less_mult_imp_div_less)
  then show ?thesis using Suc by simp
qed

lemma built_nearAt:
  assumes f: "fits32 img" and b: "built img ul lr t"
    and bnd: "255 * pixelCount t < 2 ^ 32"
    and ch: "ch = red \<or> ch = green \<or> ch = blue"
  shows "nearAt ch img t"
proof -
  note c = built_corners [OF b]
  note n = card_rect [OF f b]
  note pos = pixelCount_pos [OF b]
  note s = built_sandwich [OF f ch b, THEN mp, OF bnd]
  have sum: "(\<Sum>l\<leftarrow>leaves t. unat (ch (avg l))) = channelSum ch img ul lr"
    unfolding channelSum_def using f b by (rule leafSum_rect)
  have "unat (ch (avg t)) * pixelCount t \<le> channelSum ch img ul lr"
    using s [THEN conjunct1] by (simp only: sum)
  then have 1: "unat (ch (avg t)) \<le> channelSum ch img ul lr div pixelCount t"
    using pos by (rule le_div_of_mult_le)
  have "channelSum ch img ul lr \<le> unat (ch (avg t)) * pixelCount t + levels t * (pixelCount t - 1)"
    using s [THEN conjunct2] by (simp only: sum)
  then have 2: "channelSum ch img ul lr div pixelCount t \<le> unat (ch (avg t)) + (levels t - 1)"
    using pos by (rule div_le_of_le_levels)
  show ?thesis
    unfolding nearAt_def c [THEN conjunct1] c [THEN conjunct2] trueMean_def n
    by (intro conjI 1 2)
qed

lemma built_meanRule:
  assumes f: "fits32 img"
  shows "built img ul lr t \<Longrightarrow> meanRule img t"
proof (induction rule: built_induct_kids)
  case (leaf ul)
  show ?case by simp
next
  case (node ul lr c nw ne sw se)
  let ?n = "Node ul lr c nw ne sw se"
  have m: "meanAt img ?n" if bnd: "255 * pixelCount ?n < 2 ^ 32"
    unfolding meanAt_def
    by (intro conjI exact_at [OF f node(1) node(3-6) node(2) bnd]
        built_nearAt [OF f node(1) bnd]) simp_all
  have k: "meanRule img nw" "meanRule img ne" "meanRule img sw" "meanRule img se"
    using node(7-10) by auto
  show ?case using node(2) m k by simp
qed

text \<open>
  C4, as amended: in the tree built from a raster, every leaf holds the source pixel of
  its corner; at every internal node whose rectangle is small enough for the sums of
  the code not to wrap (255 times its number of pixels is below \<open>2 ^ 32\<close>), each colour
  channel of \<open>avg\<close> is the truncated weighted mean of the children's averages, it does
  not exceed the truncated true mean of the channel over the node's rectangle, and it
  falls short of the truncated true mean by at most the number of levels below the
  node less one (\<open>meanRule\<close>). So the two agree at a node whose children are all leaves.
  On the raster of the concrete scenario the root's \<open>avg\<close> is \<open>(127, 127, 63, 1.0)\<close>; its
  continuous channel is \<open>(1 + 1 + 1 + 1) / 4\<close>.
\<close>

theorem Build_avg_near_true_mean:
  assumes "fits32 img"
  shows "(\<exists>t. QTree img = Some t \<and> meanRule img (root t)) \<and>
    map_option (\<lambda>t. avg (root t)) (QTree img2x2) = Some (RGBAPixel 127 127 63 1)"
proof
  from assms obtain nd where
    q: "QTree img = Some \<lparr>root = nd, height = imgHeight img, width = imgWidth img\<rparr>"
    and b: "built img (0, 0) (imgWidth img - 1, imgHeight img - 1) nd"
    by (rule QTree_built)
  have "meanRule img nd" using assms b by (rule built_meanRule)
  then show "\<exists>t. QTree img = Some t \<and> meanRule img (root t)" using q by simp
  show "map_option (\<lambda>t. avg (root t)) (QTree img2x2) = Some (RGBAPixel 127 127 63 1)"
    by (simp add: QTree_img2x2)
qed

lemma rect_img3x1: "rect (0, 0) (2, 0) = {(0, 0), (1, 0), (2, 0)}"
proof -
  have "seg 0 (2 :: uint) = seg 0 1 \<union> seg 2 2"
    using seg_split(1) [of 0 "2 :: uint"] by simp
  moreover have "seg 0 (1 :: uint) = seg 0 0 \<union> seg 1 1"
    using seg_split(1) [of 0 "1 :: uint"] by simp
  ultimately have "seg 0 (2 :: uint) = {0, 1, 2}"
    by (simp only: seg_single) auto
  then show ?thesis by (auto simp: rect_def seg_single)
qed

lemma trueMean_img3x1: "trueMean red img3x1 (0, 0) (2, 0) = 1"
  by (simp add: trueMean_def channelSum_def rect_img3x1 img3x1_def)

text \<open>
  The theorem at the raster with the red channels 1, 0 and 2, whose root has two levels
  below it: the root is small enough, its red channel 0 is the truncated weighted mean
  \<open>(0 * 2 + 2 * 1) div 3\<close> of its children's averages, and the truncated true mean 1
  exceeds it by \<open>levels - 1 = 1\<close>.
\<close>

theorem Build_avg_near_true_mean_witness:
  "fits32 img3x1 \<and>
   (\<exists>t. QTree img3x1 = Some t \<and> meanRule img3x1 (root t) \<and>
      255 * pixelCount (root t) < 2 ^ 32 \<and> meanAt img3x1 (root t) \<and>
      levels (root t) = 2 \<and> unat (red (avg (root t))) = 0 \<and>
      weightedMean red (root t) = 0 \<and>
      trueMean red img3x1 (upLeft (root t)) (lowRight (root t)) = 1) \<and>
   map_option (\<lambda>t. avg (root t)) (QTree img2x2) = Some (RGBAPixel 127 127 63 1)"
proof -
  have f: "fits32 img3x1" by (simp add: fits32_def img3x1_def)
  note t = Build_avg_near_true_mean [OF f]
  from t [THEN conjunct1] obtain t where
    q: "QTree img3x1 = Some t" and m: "meanRule img3x1 (root t)"
    by (elim exE conjE)
  from q have r: "root t = Node (0, 0) (2, 0) (RGBAPixel 0 0 0 1)
       (Node (0, 0) (1, 0) (RGBAPixel 0 0 0 1)
          (Node (0, 0) (0, 0) (RGBAPixel 1 0 0 1) Null Null Null Null)
          (Node (1, 0) (1, 0) (RGBAPixel 0 0 0 1) Null Null Null Null) Null Null)
       (Node (2, 0) (2, 0) (RGBAPixel 2 0 0 1) Null Null Null Null) Null Null"
    by (auto simp: QTree_img3x1)
  have b: "255 * pixelCount (root t) < 2 ^ 32" by (simp add: r)
  have a: "meanAt img3x1 (root t)" using m b unfolding r by (simp add: img3x1_def)
  have v: "levels (root t) = 2" "unat (red (avg (root t))) = 0" "weightedMean red (root t) = 0"
      "trueMean red img3x1 (upLeft (root t)) (lowRight (root t)) = 1"
    by (simp_all add: r weightedMean_def trueMean_img3x1)
  show ?thesis
    by (intro conjI f exI [of _ t] q m b a v t [THEN conjunct2])
qed

text \<open>
  C4 as stated fails: on the raster of the concrete scenario the blue channel of the
  root's \<open>avg\<close> is \<open>255 div 4 = 63\<close>, not 64; and on the raster with the red channels
  1, 0, 2 the root's red channel is 0 while the truncated true mean is 1.
\<close>

theorem avg_true_mean_counterexample:
  "QTree img2x2 \<noteq> None \<and>
   avg (root (the (QTree img2x2))) \<noteq> RGBAPixel 127 127 64 1 \<and>
   QTree img3x1 \<noteq> None \<and>
   unat (red (avg (root (the (QTree img3x1))))) \<noteq> trueMean red img3x1 (0, 0) (2, 0)"
  by (simp add: QTree_img2x2 QTree_img3x1 trueMean_img3x1)

end
